theory Spec2Isabelle
  imports Complex_Main "HOL-Library.Sublist"
begin


section \<open>JavaScript strings and arrays\<close>

text \<open>
  A JavaScript string is modelled as a \<^typ>\<open>string\<close>, one \<^typ>\<open>char\<close> per code unit
  (code units above 255 are outside the model). \<open>charCodeAt\<close> returns \<open>NaN\<close> outside the
  string, written \<open>None\<close>; \<open>===\<close> on two char codes is \<open>code_eq\<close>, which is false as soon
  as one side is \<open>NaN\<close>.
\<close>

definition charCodeAt :: "string \<Rightarrow> int \<Rightarrow> char option" where
  "charCodeAt s i = (if 0 \<le> i \<and> i < int (length s) then Some (s ! nat i) else None)"

definition code_eq :: "char option \<Rightarrow> char option \<Rightarrow> bool" where
  "code_eq a b = (a \<noteq> None \<and> a = b)"

text \<open>\<open>find_sub sub s\<close> is the offset of the leftmost occurrence of \<open>sub\<close> in \<open>s\<close>.\<close>

fun find_sub :: "string \<Rightarrow> string \<Rightarrow> nat option" where
  "find_sub sub [] = (if sub = [] then Some 0 else None)"
| "find_sub sub (x # xs) =
     (if prefix sub (x # xs) then Some 0 else map_option Suc (find_sub sub xs))"

text \<open>\<open>s.indexOf(sub, position)\<close>: the position is clamped to \<open>0 .. s.length\<close>; \<open>-1\<close> when
  there is no occurrence at or after it.\<close>

definition indexOf :: "string \<Rightarrow> string \<Rightarrow> int \<Rightarrow> int" where
  "indexOf s sub position =
     (let start = nat (min (max position 0) (int (length s)))
      in case find_sub sub (drop start s) of
           None \<Rightarrow> - 1
         | Some k \<Rightarrow> int (start + k))"

text \<open>\<open>s.slice(start, end)\<close>: a negative index counts from the end of the string.\<close>

definition slice :: "string \<Rightarrow> int \<Rightarrow> int \<Rightarrow> string" where
  "slice s start end =
     (let len = int (length s);
          from = (if start < 0 then max (len + start) 0 else min start len);
          to = (if end < 0 then max (len + end) 0 else min end len)
      in take (nat (to - from)) (drop (nat from) s))"

text \<open>\<open>s.split(sep)\<close> for a string separator: \<open>split_on sep cur s\<close> scans \<open>s\<close> with the
  piece \<open>cur\<close> read so far. An undefined separator (\<open>None\<close>) gives the one-element array
  \<open>[s]\<close>, the empty separator gives the code units.\<close>

function split_on :: "string \<Rightarrow> string \<Rightarrow> string \<Rightarrow> string list" where
  "split_on sep cur [] = [cur]"
| "split_on sep cur (x # xs) =
     (if sep \<noteq> [] \<and> prefix sep (x # xs)
      then cur # split_on sep [] (drop (length sep) (x # xs))
      else split_on sep (cur @ [x]) xs)"
  by pat_completeness auto
termination
  by (relation "measure (\<lambda>(sep, cur, s). length s)") auto

definition split_str :: "string \<Rightarrow> string option \<Rightarrow> string list" where
  "split_str s sep =
     (case sep of
        None \<Rightarrow> [s]
      | Some d \<Rightarrow> if d = [] then map (\<lambda>c. [c]) s else split_on d [] s)"

text \<open>An array with holes is a list of options, \<open>None\<close> the unset slot. \<open>Array(n)\<close> has \<open>n\<close>
  holes; an assignment past the end extends the array, leaving holes in between.\<close>

type_synonym row = "string option list"

definition Array :: "nat \<Rightarrow> 'a option list" where
  "Array n = replicate n None"

definition arr_set :: "'a option list \<Rightarrow> nat \<Rightarrow> 'a \<Rightarrow> 'a option list" where
  "arr_set xs i x =
     (if i < length xs then xs[i := Some x]
      else xs @ replicate (i - length xs) None @ [Some x])"

text \<open>\<open>arr.join(sep)\<close>: a hole or \<open>undefined\<close> is joined as the empty string.\<close>

fun join_str :: "string \<Rightarrow> row \<Rightarrow> string" where
  "join_str sep [] = []"
| "join_str sep [x] = (case x of None \<Rightarrow> [] | Some s \<Rightarrow> s)"
| "join_str sep (x # y # ys) =
     (case x of None \<Rightarrow> [] | Some s \<Rightarrow> s) @ sep @ join_str sep (y # ys)"

section \<open>Constants of the module\<close>

definition comma :: string where "comma = [CHR 0x2C]"
definition quote :: string where "quote = [CHR 0x22]"
definition tab :: string where "tab = [CHR 0x09]"
definition pipe :: string where "pipe = [CHR 0x7C]"
definition semi :: string where "semi = [CHR 0x3B]"
definition LF :: string where "LF = [CHR 0x0A]"

definition COL_DELIMS :: "string list" where
  "COL_DELIMS = [tab, pipe, semi, comma]"

definition CHUNK_SIZE :: nat where
  "CHUNK_SIZE = 5000"

section \<open>Schema and tokenizer state\<close>

text \<open>The schema object: \<open>schema.quote\<close>, \<open>schema.cols.delim\<close>, \<open>schema.cols.names\<close>,
  \<open>schema.cols.types\<close>, \<open>schema.rows.delim\<close>. The column delimiter is \<open>undefined\<close> (\<open>None\<close>)
  when the sniffer found none.\<close>

record schema_obj =
  schema_quote :: "string option"
  cols_delim :: "string option"
  cols_names :: "string list"
  cols_types :: "string option list"
  rows_delim :: string

text \<open>What a run can end with instead of a result. \<open>TypeError\<close> is the exception of the
  language. \<open>Unmodelled\<close> is no exception of the source: it is the outcome given to a probing
  run whose delimiters do not stand for themselves in the character class of its regular
  expression (see \<open>literalClass\<close> below); what the source does then is outside this model, and
  nothing is stated about such runs.\<close>

datatype error = TypeError | Unmodelled

text \<open>What one pass through a loop body does: go on with the next iteration, or \<open>return\<close>.\<close>

datatype 'a ctl = Next 'a | Return 'a

text \<open>The local variables of the state-machine loop of \<open>parse\<close>, and \<open>calls\<close>: the arguments
  of the callback invocations made so far, oldest first.\<close>

record 'c pstate =
  inCol :: nat
  pos :: int
  rows :: "row list"
  v :: string
  row :: row
  colIdx :: nat
  calls :: "'c list"

section \<open>parse (src/uDSV.js)\<close>

text \<open>The block between \<open>PUSH MACRO START\<close> and \<open>PUSH MACRO END\<close>; \<open>c\<close> is the delimiter
  character just read.\<close>

definition pushMacro ::
  "string \<Rightarrow> nat \<Rightarrow> int option \<Rightarrow> char option \<Rightarrow> (row list) pstate \<Rightarrow> (row list) pstate ctl" where
  "pushMacro rowDelim numCols limit c s =
     (let s1 = s\<lparr>row := arr_set (row s) (colIdx s) (v s),
                 colIdx := colIdx s + 1, pos := pos s + 1, v := []\<rparr>
      in if code_eq c (charCodeAt rowDelim 0) then
           (let s2 = s1\<lparr>rows := rows s1 @ [row s1]\<rparr>
            in if limit = Some (int (length (rows s2)))
               then Return (s2\<lparr>calls := calls s2 @ [rows s2]\<rparr>)
               else
                 (let s3 = (if length (rows s2) = CHUNK_SIZE
                            then s2\<lparr>calls := calls s2 @ [rows s2], rows := []\<rparr>
                            else s2)
                  in Next (s3\<lparr>row := Array numCols, colIdx := 0,
                                pos := pos s3 + (int (length rowDelim) - 1)\<rparr>)))
         else Next s1)"

text \<open>The \<open>if (inCol === 0)\<close> block at the top of the loop body. It hands on the character
  \<open>c\<close> that the rest of the body looks at.\<close>

definition unstarted ::
  "string \<Rightarrow> string \<Rightarrow> string \<Rightarrow> nat \<Rightarrow> int option \<Rightarrow> (row list) pstate
     \<Rightarrow> (char option \<times> (row list) pstate) ctl" where
  "unstarted csvStr colDelim rowDelim numCols limit s =
     (let c = charCodeAt csvStr (pos s)
      in if inCol s = 0 then
           if code_eq c (charCodeAt quote 0) then
             (let s1 = s\<lparr>inCol := 2, pos := pos s + 1\<rparr>
              in Next (charCodeAt csvStr (pos s1), s1))
           else if code_eq c (charCodeAt colDelim 0) \<or> code_eq c (charCodeAt rowDelim 0) then
             (case pushMacro rowDelim numCols limit c s of
                Return s1 \<Rightarrow> Return (c, s1)
              | Next s1 \<Rightarrow> Next (charCodeAt csvStr (pos s1), s1))
           else Next (c, s\<lparr>inCol := 1\<rparr>)
         else Next (c, s))"

text \<open>The \<open>if (inCol === 2)\<close> block.\<close>

definition quoted ::
  "string \<Rightarrow> char option \<Rightarrow> ('c, 'z) pstate_scheme \<Rightarrow> ('c, 'z) pstate_scheme" where
  "quoted csvStr c s =
     (if code_eq c (charCodeAt quote 0) then
        (if code_eq (charCodeAt csvStr (pos s + 1)) (charCodeAt quote 0)
         then s\<lparr>v := v s @ quote, pos := pos s + 2\<rparr>
         else s\<lparr>inCol := 0, pos := pos s + 1\<rparr>)
      else
        (let pos2 = indexOf csvStr quote (pos s)
         in s\<lparr>v := v s @ slice csvStr (pos s) pos2, pos := pos2\<rparr>))"

text \<open>The pattern text \<open>[^${colDelim}${rowDelim}]+\<close> of the probe sub-mode denotes the class of
  the characters that are in neither delimiter only if every character of the delimiters
  stands for itself between the brackets: a closing bracket ends the class early, a backslash
  starts an escape, a dash may form a range, and a caret is kept out of the model as well.\<close>

definition literalClass :: "string \<Rightarrow> bool" where
  "literalClass ds = list_all (\<lambda>ch. ch \<notin> set [CHR 0x5C, CHR '']'', CHR ''-'', CHR ''^'']) ds"

text \<open>The sticky regular expression \<open>[^colDelim rowDelim]+\<close> run at \<open>lastIndex = pos\<close>, for
  delimiters that are literal in the class: the longest run of characters that are in neither
  delimiter; \<open>exec\<close> returns \<open>null\<close> (\<open>None\<close>) when the run is empty.\<close>

definition takeToCommaOrEOL :: "string \<Rightarrow> string \<Rightarrow> string \<Rightarrow> int \<Rightarrow> string option" where
  "takeToCommaOrEOL colDelim rowDelim csvStr lastIndex =
     (let m = takeWhile (\<lambda>ch. ch \<notin> set colDelim \<and> ch \<notin> set rowDelim)
                (drop (nat (max lastIndex 0)) csvStr)
      in if m = [] then None else Some m)"

text \<open>The scan of an unquoted field, the last \<open>else\<close> of the \<open>inCol === 1\<close> block: the
  regular expression in probe mode, else \<open>indexOf\<close> of the row delimiter in the last column
  and of the column delimiter in the others.\<close>

definition scanUnquoted ::
  "string \<Rightarrow> string \<Rightarrow> string \<Rightarrow> nat \<Rightarrow> bool \<Rightarrow> ('c, 'z) pstate_scheme
     \<Rightarrow> error + ('c, 'z) pstate_scheme" where
  "scanUnquoted csvStr colDelim rowDelim numCols probe s =
     (if probe then
        (case takeToCommaOrEOL colDelim rowDelim csvStr (pos s) of
           None \<Rightarrow> Inl TypeError
         | Some m \<Rightarrow> Inr (s\<lparr>v := v s @ m, pos := pos s + int (length m)\<rparr>))
      else
        (let pos2 =
               (if int (colIdx s) = int numCols - 1 then
                  (let p = indexOf csvStr rowDelim (pos s)
                   in if p = - 1 then int (length csvStr) else p)
                else indexOf csvStr colDelim (pos s))
         in Inr (s\<lparr>v := v s @ slice csvStr (pos s) pos2, pos := pos2\<rparr>)))"

text \<open>The \<open>else if (inCol === 1)\<close> block.\<close>

definition unquoted ::
  "string \<Rightarrow> string \<Rightarrow> string \<Rightarrow> nat \<Rightarrow> int option \<Rightarrow> bool \<Rightarrow> char option
     \<Rightarrow> (row list) pstate \<Rightarrow> error + (row list) pstate ctl" where
  "unquoted csvStr colDelim rowDelim numCols limit probe c s =
     (if code_eq c (charCodeAt colDelim 0) \<or> code_eq c (charCodeAt rowDelim 0) then
        (case pushMacro rowDelim numCols limit c s of
           Return s1 \<Rightarrow> Inr (Return s1)
         | Next s1 \<Rightarrow> Inr (Next (s1\<lparr>inCol := 0\<rparr>)))
      else
        (case scanUnquoted csvStr colDelim rowDelim numCols probe s of
           Inl e \<Rightarrow> Inl e
         | Inr s1 \<Rightarrow> Inr (Next s1)))"

text \<open>One pass through the body of \<open>while (pos <= endPos)\<close>.\<close>

definition body ::
  "string \<Rightarrow> string \<Rightarrow> string \<Rightarrow> nat \<Rightarrow> int option \<Rightarrow> bool
     \<Rightarrow> (row list) pstate \<Rightarrow> error + (row list) pstate ctl" where
  "body csvStr colDelim rowDelim numCols limit probe s =
     (case unstarted csvStr colDelim rowDelim numCols limit s of
        Return (c, s1) \<Rightarrow> Inr (Return s1)
      | Next (c, s1) \<Rightarrow>
          if inCol s1 = 2 then Inr (Next (quoted csvStr c s1))
          else if inCol s1 = 1 then unquoted csvStr colDelim rowDelim numCols limit probe c s1
          else Inr (Next s1))"

text \<open>The loop, with fuel: \<open>None\<close> when the fuel runs out before the loop ends. After the loop
  the last field and row are stored and the callback is invoked once more.\<close>

fun loop ::
  "string \<Rightarrow> string \<Rightarrow> string \<Rightarrow> nat \<Rightarrow> int option \<Rightarrow> bool \<Rightarrow> nat
     \<Rightarrow> (row list) pstate \<Rightarrow> (error + row list list) option" where
  "loop csvStr colDelim rowDelim numCols limit probe 0 s = None"
| "loop csvStr colDelim rowDelim numCols limit probe (Suc n) s =
     (if pos s \<le> int (length csvStr) - 1 then
        (case body csvStr colDelim rowDelim numCols limit probe s of
           Inl e \<Rightarrow> Some (Inl e)
         | Inr (Return s1) \<Rightarrow> Some (Inr (calls s1))
         | Inr (Next s1) \<Rightarrow> loop csvStr colDelim rowDelim numCols limit probe n s1)
      else Some (Inr (calls s @ [rows s @ [arr_set (row s) (colIdx s) (v s)]])))"

text \<open>The quote-free path: \<open>p\<close>, \<open>rs\<close> and \<open>cs\<close> are the variables \<open>pos\<close> and \<open>rows\<close> of that
  block and the callback invocations made so far.\<close>

fun fastLoop ::
  "string \<Rightarrow> string option \<Rightarrow> string \<Rightarrow> int option \<Rightarrow> nat \<Rightarrow> int \<Rightarrow> row list
     \<Rightarrow> row list list \<Rightarrow> (row list list) option" where
  "fastLoop csvStr colDelim rowDelim limit 0 p rs cs = None"
| "fastLoop csvStr colDelim rowDelim limit (Suc n) p rs cs =
     (let idx = indexOf csvStr rowDelim p
      in if idx > - 1 then
           (let rs1 = rs @ [map Some (split_str (slice csvStr p idx) colDelim)];
                p1 = idx + int (length rowDelim)
            in if limit = Some (int (length rs1)) then
                 Some (if length rs1 > 0 then cs @ [rs1] else cs)
               else if length rs1 = CHUNK_SIZE then
                 fastLoop csvStr colDelim rowDelim limit n p1 [] (cs @ [rs1])
               else fastLoop csvStr colDelim rowDelim limit n p1 rs1 cs)
         else Some (if length rs > 0 then cs @ [rs] else cs))"

text \<open>\<open>parse(csvStr, schema, cb, limit, _maxCols)\<close>. The result is the list of arguments the
  callback \<open>cb\<close> was invoked with, in order; \<open>None\<close> when the fuel ran out. The regular
  expression is built, in probe mode, after \<open>colDelim.charCodeAt(0)\<close> and before the loop.\<close>

definition parse ::
  "nat \<Rightarrow> string \<Rightarrow> schema_obj \<Rightarrow> int option \<Rightarrow> nat option \<Rightarrow> (error + row list list) option" where
  "parse fuel csvStr sch limit maxCols =
     (let colDelim = cols_delim sch;
          rowDelim = rows_delim sch;
          numCols = (case maxCols of
                       None \<Rightarrow> length (cols_names sch)
                     | Some m \<Rightarrow> if m = 0 then length (cols_names sch) else m);
          probe = (maxCols \<noteq> None \<and> limit \<noteq> None)
      in if schema_quote sch = None \<or> schema_quote sch = Some [] then
           map_option Inr (fastLoop csvStr colDelim rowDelim limit fuel 0 [] [])
         else
           (case colDelim of
              None \<Rightarrow> Some (Inl TypeError)
            | Some cd \<Rightarrow>
                if probe \<and> \<not> literalClass (cd @ rowDelim) then Some (Inl Unmodelled)
                else
                  loop csvStr cd rowDelim numCols limit probe fuel
                    \<lparr>inCol = 0, pos = 0, rows = [], v = [], row = Array numCols,
                     colIdx = 0, calls = []\<rparr>))"

section \<open>parse (dist/uDSV.cjs.js)\<close>

text \<open>The state of the distributed build's loop has the chunk counter \<open>numChunks\<close> as well;
  its callback takes the chunk and the chunk index.\<close>

record cstate = "(row list \<times> nat) pstate" +
  numChunks :: nat

text \<open>The block between \<open>PUSH MACRO START\<close> and \<open>PUSH MACRO END\<close>.\<close>

definition pushMacro_cjs ::
  "string \<Rightarrow> nat \<Rightarrow> int \<Rightarrow> int option \<Rightarrow> char option \<Rightarrow> cstate \<Rightarrow> cstate ctl" where
  "pushMacro_cjs rowDelim numCols chunkSize chunkLimit c s =
     (let s1 = s\<lparr>row := arr_set (row s) (colIdx s) (v s),
                 colIdx := colIdx s + 1, pos := pos s + 1, v := []\<rparr>
      in if code_eq c (charCodeAt rowDelim 0) then
           (let s2 = s1\<lparr>rows := rows s1 @ [row s1]\<rparr>;
                fresh = (\<lambda>t. t\<lparr>row := Array numCols, colIdx := 0,
                                 pos := pos t + (int (length rowDelim) - 1)\<rparr>)
            in if int (length (rows s2)) = chunkSize then
                 (let s3 = s2\<lparr>calls := calls s2 @ [(rows s2, numChunks s2)],
                              numChunks := numChunks s2 + 1, rows := []\<rparr>
                  in if chunkLimit = Some (int (numChunks s3)) then Return s3
                     else Next (fresh s3))
               else Next (fresh s2))
         else Next s1)"

text \<open>The \<open>if (inCol === 0)\<close> block.\<close>

definition unstarted_cjs ::
  "string \<Rightarrow> string \<Rightarrow> string \<Rightarrow> nat \<Rightarrow> int \<Rightarrow> int option \<Rightarrow> cstate
     \<Rightarrow> (char option \<times> cstate) ctl" where
  "unstarted_cjs csvStr colDelim rowDelim numCols chunkSize chunkLimit s =
     (let c = charCodeAt csvStr (pos s)
      in if inCol s = 0 then
           if code_eq c (charCodeAt quote 0) then
             (let s1 = s\<lparr>inCol := 2, pos := pos s + 1\<rparr>
              in Next (charCodeAt csvStr (pos s1), s1))
           else if code_eq c (charCodeAt colDelim 0) \<or> code_eq c (charCodeAt rowDelim 0) then
             (case pushMacro_cjs rowDelim numCols chunkSize chunkLimit c s of
                Return s1 \<Rightarrow> Return (c, s1)
              | Next s1 \<Rightarrow> Next (charCodeAt csvStr (pos s1), s1))
           else Next (c, s\<lparr>inCol := 1\<rparr>)
         else Next (c, s))"

text \<open>The \<open>while (1)\<close> loop of the \<open>inCol === 2\<close> block, with fuel. It leaves through \<open>break\<close>
  only, at a quote character that is not followed by a second one.\<close>

fun quoted_cjs :: "string \<Rightarrow> nat \<Rightarrow> char option \<Rightarrow> cstate \<Rightarrow> cstate option" where
  "quoted_cjs csvStr 0 c s = None"
| "quoted_cjs csvStr (Suc n) c s =
     (if code_eq c (charCodeAt quote 0) then
        (let cNext = charCodeAt csvStr (pos s + 1)
         in if code_eq cNext (charCodeAt quote 0) then
              (let s1 = s\<lparr>v := v s @ quote, pos := pos s + 2\<rparr>
               in quoted_cjs csvStr n (charCodeAt csvStr (pos s1)) s1)
            else Some (s\<lparr>inCol := 0, pos := pos s + 1\<rparr>))
      else
        (let pos2 = indexOf csvStr quote (pos s)
         in quoted_cjs csvStr n (charCodeAt quote 0)
              (s\<lparr>v := v s @ slice csvStr (pos s) pos2, pos := pos2\<rparr>)))"

text \<open>The \<open>else if (inCol === 1)\<close> block.\<close>

definition unquoted_cjs ::
  "string \<Rightarrow> string \<Rightarrow> string \<Rightarrow> nat \<Rightarrow> int \<Rightarrow> int option \<Rightarrow> bool \<Rightarrow> char option
     \<Rightarrow> cstate \<Rightarrow> error + cstate ctl" where
  "unquoted_cjs csvStr colDelim rowDelim numCols chunkSize chunkLimit probe c s =
     (if code_eq c (charCodeAt colDelim 0) \<or> code_eq c (charCodeAt rowDelim 0) then
        (case pushMacro_cjs rowDelim numCols chunkSize chunkLimit c s of
           Return s1 \<Rightarrow> Inr (Return s1)
         | Next s1 \<Rightarrow> Inr (Next (s1\<lparr>inCol := 0\<rparr>)))
      else
        (case scanUnquoted csvStr colDelim rowDelim numCols probe s of
           Inl e \<Rightarrow> Inl e
         | Inr s1 \<Rightarrow> Inr (Next s1)))"

text \<open>One pass through the body of \<open>while (pos <= endPos)\<close>; \<open>n\<close> is the fuel left for the
  inner loop, \<open>None\<close> when the inner loop used it up.\<close>

definition body_cjs ::
  "string \<Rightarrow> string \<Rightarrow> string \<Rightarrow> nat \<Rightarrow> int \<Rightarrow> int option \<Rightarrow> bool \<Rightarrow> nat
     \<Rightarrow> cstate \<Rightarrow> (error + cstate ctl) option" where
  "body_cjs csvStr colDelim rowDelim numCols chunkSize chunkLimit probe n s =
     (case unstarted_cjs csvStr colDelim rowDelim numCols chunkSize chunkLimit s of
        Return (c, s1) \<Rightarrow> Some (Inr (Return s1))
      | Next (c, s1) \<Rightarrow>
          if inCol s1 = 2 then
            (case quoted_cjs csvStr n c s1 of
               None \<Rightarrow> None
             | Some s2 \<Rightarrow> Some (Inr (Next s2)))
          else if inCol s1 = 1 then
            Some (unquoted_cjs csvStr colDelim rowDelim numCols chunkSize chunkLimit probe c s1)
          else Some (Inr (Next s1)))"

fun loop_cjs ::
  "string \<Rightarrow> string \<Rightarrow> string \<Rightarrow> nat \<Rightarrow> int \<Rightarrow> int option \<Rightarrow> bool \<Rightarrow> nat
     \<Rightarrow> cstate \<Rightarrow> (error + (row list \<times> nat) list) option" where
  "loop_cjs csvStr colDelim rowDelim numCols chunkSize chunkLimit probe 0 s = None"
| "loop_cjs csvStr colDelim rowDelim numCols chunkSize chunkLimit probe (Suc n) s =
     (if pos s \<le> int (length csvStr) - 1 then
        (case body_cjs csvStr colDelim rowDelim numCols chunkSize chunkLimit probe n s of
           None \<Rightarrow> None
         | Some (Inl e) \<Rightarrow> Some (Inl e)
         | Some (Inr (Return s1)) \<Rightarrow> Some (Inr (calls s1))
         | Some (Inr (Next s1)) \<Rightarrow>
             loop_cjs csvStr colDelim rowDelim numCols chunkSize chunkLimit probe n s1)
      else Some (Inr (calls s @
                   [(rows s @ [arr_set (row s) (colIdx s) (v s)], numChunks s)])))"

text \<open>The quote-free path: \<open>p\<close>, \<open>rs\<close>, \<open>k\<close> and \<open>cs\<close> are \<open>pos\<close>, \<open>rows\<close>, \<open>numChunks\<close> and the
  callback invocations made so far.\<close>

fun fastLoop_cjs ::
  "string \<Rightarrow> string option \<Rightarrow> string \<Rightarrow> int \<Rightarrow> int option \<Rightarrow> nat \<Rightarrow> int \<Rightarrow> row list
     \<Rightarrow> nat \<Rightarrow> (row list \<times> nat) list \<Rightarrow> ((row list \<times> nat) list) option" where
  "fastLoop_cjs csvStr colDelim rowDelim chunkSize chunkLimit 0 p rs k cs = None"
| "fastLoop_cjs csvStr colDelim rowDelim chunkSize chunkLimit (Suc n) p rs k cs =
     (let idx = indexOf csvStr rowDelim p
      in if idx > - 1 then
           (let rs1 = rs @ [map Some (split_str (slice csvStr p idx) colDelim)];
                p1 = idx + int (length rowDelim)
            in if int (length rs1) = chunkSize then
                 (if chunkLimit = Some (int (k + 1)) then Some (cs @ [(rs1, k)])
                  else fastLoop_cjs csvStr colDelim rowDelim chunkSize chunkLimit n p1 []
                         (k + 1) (cs @ [(rs1, k)]))
               else fastLoop_cjs csvStr colDelim rowDelim chunkSize chunkLimit n p1 rs1 k cs)
         else Some (if length rs > 0 then cs @ [(rs, k)] else cs))"

text \<open>\<open>parse(csvStr, schema, cb, chunkSize, chunkLimit, _maxCols)\<close>. The result is the list of
  (chunk, chunk index) pairs the callback was invoked with, in order.\<close>

definition parse_cjs ::
  "nat \<Rightarrow> string \<Rightarrow> schema_obj \<Rightarrow> int \<Rightarrow> int option \<Rightarrow> nat option
     \<Rightarrow> (error + (row list \<times> nat) list) option" where
  "parse_cjs fuel csvStr sch chunkSize chunkLimit maxCols =
     (let colDelim = cols_delim sch;
          rowDelim = rows_delim sch;
          numCols = (case maxCols of
                       None \<Rightarrow> length (cols_names sch)
                     | Some m \<Rightarrow> if m = 0 then length (cols_names sch) else m);
          probe = (maxCols \<noteq> None \<and> chunkLimit \<noteq> None)
      in if schema_quote sch = None then
           map_option Inr (fastLoop_cjs csvStr colDelim rowDelim chunkSize chunkLimit fuel 0 [] 0 [])
         else
           (case colDelim of
              None \<Rightarrow> Some (Inl TypeError)
            | Some cd \<Rightarrow>
                if probe \<and> \<not> literalClass (cd @ rowDelim) then Some (Inl Unmodelled)
                else
                  loop_cjs csvStr cd rowDelim numCols chunkSize chunkLimit probe fuel
                    \<lparr>inCol = 0, pos = 0, rows = [], v = [], row = Array numCols,
                     colIdx = 0, calls = [], numChunks = 0\<rparr>))"


section \<open>schema (src/uDSV.js)\<close>

text \<open>The match of \<open>/(.*)(\r?\n?)/\<close> against the text: group 1 is the text up to the first
  line terminator (carriage return or line feed, the two that exist among 8-bit code units),
  group 2 the optional carriage return and optional line feed that follow.\<close>

definition CR :: string where "CR = [CHR 0x0D]"

definition isLineTerminator :: "char \<Rightarrow> bool" where
  "isLineTerminator ch = (ch = CHR 0x0A \<or> ch = CHR 0x0D)"

definition firstRowMatch :: "string \<Rightarrow> string \<times> string" where
  "firstRowMatch csvStr =
     (let g1 = takeWhile (\<lambda>ch. \<not> isLineTerminator ch) csvStr;
          r1 = dropWhile (\<lambda>ch. \<not> isLineTerminator ch) csvStr;
          cr = (if prefix CR r1 then CR else []);
          r2 = drop (length cr) r1;
          lf = (if prefix LF r2 then LF else [])
      in (g1, cr @ lf))"

text \<open>The unary plus of the type probe, \<open>Number.isNaN(+val)\<close>, after the grammar of numeric
  string literals of the language standard: the string is trimmed of white space; the empty
  string is \<open>0\<close>; otherwise it is a signed decimal literal (digits with an optional fraction
  and exponent, or \<open>Infinity\<close>) or an unsigned binary, octal or hexadecimal integer literal;
  anything else is \<open>NaN\<close>.\<close>

definition isWhiteSpace :: "char \<Rightarrow> bool" where
  "isWhiteSpace ch =
     (ch \<in> set [CHR 0x09, CHR 0x0A, CHR 0x0B, CHR 0x0C, CHR 0x0D, CHR 0x20, CHR 0xA0])"

definition isDigit :: "char \<Rightarrow> bool" where
  "isDigit ch = (ch \<in> set ''0123456789'')"

definition trim :: "string \<Rightarrow> string" where
  "trim s = rev (dropWhile isWhiteSpace (rev (dropWhile isWhiteSpace s)))"

definition exponentPart :: "string \<Rightarrow> bool" where
  "exponentPart s =
     (case s of
        [] \<Rightarrow> True
      | e # t \<Rightarrow>
          (e = CHR ''e'' \<or> e = CHR ''E'') \<and>
          (let u = (case t of
                      [] \<Rightarrow> []
                    | sg # w \<Rightarrow> if sg = CHR ''+'' \<or> sg = CHR ''-'' then w else t)
           in u \<noteq> [] \<and> list_all isDigit u))"

definition strUnsignedDecimalLiteral :: "string \<Rightarrow> bool" where
  "strUnsignedDecimalLiteral s =
     (s = ''Infinity'' \<or>
      (let ds = takeWhile isDigit s; r = dropWhile isDigit s
       in case r of
            [] \<Rightarrow> ds \<noteq> []
          | ch # t \<Rightarrow>
              if ch = CHR ''.''
              then (ds \<noteq> [] \<or> takeWhile isDigit t \<noteq> []) \<and> exponentPart (dropWhile isDigit t)
              else ds \<noteq> [] \<and> exponentPart r))"

definition strDecimalLiteral :: "string \<Rightarrow> bool" where
  "strDecimalLiteral s =
     (case s of
        [] \<Rightarrow> False
      | ch # t \<Rightarrow>
          if ch = CHR ''+'' \<or> ch = CHR ''-'' then strUnsignedDecimalLiteral t
          else strUnsignedDecimalLiteral s)"

definition nonDecimalIntegerLiteral :: "string \<Rightarrow> bool" where
  "nonDecimalIntegerLiteral s =
     (case s of
        z # x # t \<Rightarrow>
          z = CHR ''0'' \<and> t \<noteq> [] \<and>
          ((x \<in> set ''bB'' \<and> list_all (\<lambda>ch. ch \<in> set ''01'') t) \<or>
           (x \<in> set ''oO'' \<and> list_all (\<lambda>ch. ch \<in> set ''01234567'') t) \<or>
           (x \<in> set ''xX'' \<and> list_all (\<lambda>ch. ch \<in> set ''0123456789abcdefABCDEF'') t))
      | _ \<Rightarrow> False)"

definition plusIsNaN :: "string \<Rightarrow> bool" where
  "plusIsNaN val =
     (let t = trim val
      in \<not> (t = [] \<or> strDecimalLiteral t \<or> nonDecimalIntegerLiteral t))"

text \<open>\<open>Object.keys\<close> of an array: the indices of the slots that are set, as decimal strings.\<close>

fun decimal :: "nat \<Rightarrow> string" where
  "decimal n =
     (if n < 10 then [char_of (48 + n)]
      else decimal (n div 10) @ [char_of (48 + n mod 10)])"

definition keys_of :: "'a option list \<Rightarrow> string list" where
  "keys_of r = map decimal (filter (\<lambda>i. r ! i \<noteq> None) [0..<length r])"

text \<open>The rows the probing call of \<open>parse\<close> hands to \<open>chunk => firstRows.push(...chunk)\<close>: the
  partly filled schema, the forced column count, and \<open>firstRows\<close> after the call.\<close>

definition sniffed :: "string \<Rightarrow> schema_obj" where
  "sniffed csvStr =
     (let firstRowStr = fst (firstRowMatch csvStr);
          rowDelim = snd (firstRowMatch csvStr);
          colDelim = find (\<lambda>delim. indexOf firstRowStr delim 0 > - 1) COL_DELIMS;
          hasQuotes = (indexOf csvStr quote 0 > - 1)
      in \<lparr>schema_quote = Some (if hasQuotes then quote else []),
          cols_delim = colDelim, cols_names = [], cols_types = [],
          rows_delim = rowDelim\<rparr>)"

definition firstRows :: "nat \<Rightarrow> string \<Rightarrow> int \<Rightarrow> (error + row list) option" where
  "firstRows fuel csvStr limit =
     (let sch = sniffed csvStr;
          maxCols = length (split_str (fst (firstRowMatch csvStr)) (cols_delim sch)) + 1
      in case parse fuel csvStr sch (Some limit) (Some maxCols) of
           None \<Rightarrow> None
         | Some (Inl e) \<Rightarrow> Some (Inl e)
         | Some (Inr cs) \<Rightarrow> Some (Inr (concat cs)))"

text \<open>The type probe: \<open>r.forEach\<close> visits the slots of \<open>r\<close> that are set, in index order.\<close>

definition probeRow :: "row \<Rightarrow> string option list \<Rightarrow> string option list" where
  "probeRow r types =
     fold (\<lambda>(colIdx, slot) ts.
             case slot of
               None \<Rightarrow> ts
             | Some val \<Rightarrow> if \<not> plusIsNaN val then arr_set ts colIdx ''n'' else ts)
          (zip [0..<length r] r) types"

text \<open>\<open>schema(csvStr, limit)\<close>; the default of \<open>limit\<close> is \<open>10\<close>. \<open>Object.keys\<close> of the
  \<open>undefined\<close> that \<open>firstRows.shift()\<close> returns on an empty array is a \<open>TypeError\<close>.\<close>

definition schema :: "nat \<Rightarrow> string \<Rightarrow> int \<Rightarrow> (error + schema_obj) option" where
  "schema fuel csvStr limit =
     (case firstRows fuel csvStr limit of
        None \<Rightarrow> None
      | Some (Inl e) \<Rightarrow> Some (Inl e)
      | Some (Inr []) \<Rightarrow> Some (Inl TypeError)
      | Some (Inr (first # sample)) \<Rightarrow>
          (let header = keys_of first
           in Some (Inr ((sniffed csvStr)
                \<lparr>cols_names := header,
                 cols_types := fold probeRow sample (replicate (length header) (Some ''s''))\<rparr>))))"


section \<open>Inputs used in the statements\<close>

text \<open>A schema with the comma as column delimiter and the line feed as row delimiter;
  \<open>q\<close> is \<open>schema.quote\<close>.\<close>

definition csvSchema :: "string option \<Rightarrow> string list \<Rightarrow> schema_obj" where
  "csvSchema q names =
     \<lparr>schema_quote = q, cols_delim = Some comma, cols_names = names, cols_types = [],
      rows_delim = LF\<rparr>"


text \<open>The text of the concrete scenario: a header line and two records, the second with
  a quoted field that holds a comma.\<close>

definition scenario :: string where
  "scenario = ''id,name,active'' @ LF @ ''1,Alice,true'' @ LF
                @ ''2,'' @ quote @ ''Bob, Jr.'' @ quote @ '',false'' @ LF"

text \<open>The state in which the loop of \<open>parse\<close> stays forever on the text \<open>"abc\<close> with two
  columns declared.\<close>

definition stuck :: "(row list) pstate" where
  "stuck = \<lparr>inCol = 1, pos = - 1, rows = [], v = ''abab'', row = Array 2, colIdx = 0,
            calls = []\<rparr>"

section \<open>Well-formed delimited text\<close>

text \<open>A field as it is written: plain, or between quotes with every quote inside doubled.
  A plain field holds no quote, no column delimiter and no character of the row delimiter.\<close>

datatype field = Plain string | Quoted string

fun escape :: "string \<Rightarrow> string" where
  "escape [] = []"
| "escape (x # xs) = (if x = CHR 0x22 then [x, x] else [x]) @ escape xs"

fun fieldText :: "field \<Rightarrow> string" where
  "fieldText (Plain s) = s"
| "fieldText (Quoted s) = quote @ escape s @ quote"

fun fieldValue :: "field \<Rightarrow> string" where
  "fieldValue (Plain s) = s"
| "fieldValue (Quoted s) = s"

fun fieldOK :: "char \<Rightarrow> string \<Rightarrow> field \<Rightarrow> bool" where
  "fieldOK c rd (Plain s) = (CHR 0x22 \<notin> set s \<and> c \<notin> set s \<and> set s \<inter> set rd = {})"
| "fieldOK c rd (Quoted s) = True"

fun isPlain :: "field \<Rightarrow> bool" where
  "isPlain (Plain s) = True"
| "isPlain (Quoted s) = False"

text \<open>The text of a row: its fields with the column delimiter \<open>c\<close> between them. The text of
  a table: every row followed by the row delimiter \<open>rd\<close>.\<close>

fun rowText :: "char \<Rightarrow> field list \<Rightarrow> string" where
  "rowText c [] = []"
| "rowText c [f] = fieldText f"
| "rowText c (f # g # fs) = fieldText f @ c # rowText c (g # fs)"

definition tableText :: "char \<Rightarrow> string \<Rightarrow> field list list \<Rightarrow> string" where
  "tableText c rd rs = concat (map (\<lambda>r. rowText c r @ rd) rs)"

definition rowValues :: "field list \<Rightarrow> row" where
  "rowValues r = map (\<lambda>f. Some (fieldValue f)) r"

text \<open>The delimiters differ from the quote and from each other; every row of the table has
  \<open>nc\<close> fields, all of them well-formed.\<close>

definition delimsOK :: "char \<Rightarrow> string \<Rightarrow> bool" where
  "delimsOK c rd = (c \<noteq> CHR 0x22 \<and> rd \<noteq> [] \<and> CHR 0x22 \<notin> set rd \<and> c \<notin> set rd)"

definition rowOK :: "nat \<Rightarrow> char \<Rightarrow> string \<Rightarrow> field list \<Rightarrow> bool" where
  "rowOK nc c rd r = (length r = nc \<and> list_all (fieldOK c rd) r)"

definition tableOK :: "nat \<Rightarrow> char \<Rightarrow> string \<Rightarrow> field list list \<Rightarrow> bool" where
  "tableOK nc c rd rs = list_all (rowOK nc c rd) rs"

text \<open>A row buffer of \<open>nc\<close> slots whose first slots hold \<open>vals\<close>.\<close>

definition filled :: "nat \<Rightarrow> string list \<Rightarrow> row" where
  "filled nc vals = map Some vals @ replicate (nc - length vals) None"

text \<open>A computation with fuel yields a result with property \<open>P\<close>: from some amount of fuel
  on it returns one and the same result, and that result has the property.\<close>

definition yields :: "(nat \<Rightarrow> 'a option) \<Rightarrow> ('a \<Rightarrow> bool) \<Rightarrow> bool" where
  "yields f P = (\<exists>r. P r \<and> (\<exists>k. \<forall>n. f (k + n) = Some r))"

text \<open>The chunk buffer and the callback invocations of \<open>parse\<close> (src/uDSV.js) after a row
  \<open>r\<close> was pushed without reaching the row limit: the buffer is handed over and emptied when
  it reaches \<open>CHUNK_SIZE\<close> rows.\<close>

definition pushedRows :: "row list \<Rightarrow> row \<Rightarrow> row list" where
  "pushedRows R r = (if Suc (length R) = CHUNK_SIZE then [] else R @ [r])"

definition pushedCalls :: "row list list \<Rightarrow> row list \<Rightarrow> row \<Rightarrow> row list list" where
  "pushedCalls C R r = (if Suc (length R) = CHUNK_SIZE then C @ [R @ [r]] else C)"

text \<open>A row of plain fields, at least one; a table of such rows. \<open>rejoin\<close> joins the fields
  of every row with the column delimiter and the rows with the row delimiter.\<close>

definition plainRow :: "char \<Rightarrow> string \<Rightarrow> field list \<Rightarrow> bool" where
  "plainRow c rd r = (r \<noteq> [] \<and> list_all isPlain r \<and> list_all (fieldOK c rd) r)"

definition plainTable :: "char \<Rightarrow> string \<Rightarrow> field list list \<Rightarrow> bool" where
  "plainTable c rd rs = list_all (plainRow c rd) rs"

definition rejoin :: "char \<Rightarrow> string \<Rightarrow> row list \<Rightarrow> string" where
  "rejoin c rd rws = join_str rd (map (\<lambda>r. Some (join_str [c] r)) rws)"

text \<open>A schema that declares the column delimiter \<open>c\<close>, the row delimiter \<open>rd\<close> and \<open>nc\<close>
  columns. \<open>quoting\<close>: \<open>schema.quote\<close> is neither \<open>null\<close> nor the empty string, so that
  \<open>parse\<close> of src/uDSV.js takes the state-machine path.\<close>

definition delimited :: "schema_obj \<Rightarrow> char \<Rightarrow> string \<Rightarrow> nat \<Rightarrow> bool" where
  "delimited sch c rd nc =
     (cols_delim sch = Some [c] \<and> rows_delim sch = rd \<and> length (cols_names sch) = nc)"

definition quoting :: "schema_obj \<Rightarrow> bool" where
  "quoting sch = (schema_quote sch \<noteq> None \<and> schema_quote sch \<noteq> Some [])"

definition chunked :: "int \<Rightarrow> cstate \<Rightarrow> bool" where
  "chunked C s =
     (numChunks s = length (calls s) \<and> map snd (calls s) = [0..<length (calls s)] \<and>
      list_all (\<lambda>ch. int (length (fst ch)) = C) (calls s) \<and> int (length (rows s)) < C)"

text \<open>What the chunk accounting guarantees of the callback invocations of a finished run:
  the indices count up from \<open>0\<close>, every chunk but the last has \<open>C\<close> rows, and the last one
  has between \<open>1\<close> and \<open>C\<close> rows.\<close>

definition chunks_ok :: "int \<Rightarrow> (row list \<times> nat) list \<Rightarrow> bool" where
  "chunks_ok C cs =
     (map snd cs = [0..<length cs] \<and>
      list_all (\<lambda>ch. int (length (fst ch)) = C) (butlast cs) \<and>
      list_all (\<lambda>ch. 1 \<le> length (fst ch) \<and> int (length (fst ch)) \<le> C) cs)"

text \<open>Two runs of the loop that differ in the chunk size only are in the same place of the
  scan and have taken the same rows so far.\<close>

definition sameScan :: "cstate \<Rightarrow> cstate \<Rightarrow> bool" where
  "sameScan s t =
     (inCol s = inCol t \<and> pos s = pos t \<and> v s = v t \<and> row s = row t \<and> colIdx s = colIdx t \<and>
      concat (map fst (calls s)) @ rows s = concat (map fst (calls t)) @ rows t)"

definition bothNext :: "cstate ctl \<Rightarrow> cstate ctl \<Rightarrow> bool" where
  "bothNext x y = (\<exists>a b. x = Next a \<and> y = Next b \<and> sameScan a b)"

text \<open>The chunk buffer, the callback invocations and the chunk counter of \<open>parse\<close>
  (dist/uDSV.cjs.js) after a row \<open>r\<close> was pushed, with chunk size \<open>C\<close> and no chunk limit.\<close>

definition pushedRows_cjs :: "int \<Rightarrow> row list \<Rightarrow> row \<Rightarrow> row list" where
  "pushedRows_cjs C R r = (if int (Suc (length R)) = C then [] else R @ [r])"

definition pushedCalls_cjs ::
  "int \<Rightarrow> (row list \<times> nat) list \<Rightarrow> nat \<Rightarrow> row list \<Rightarrow> row \<Rightarrow> (row list \<times> nat) list" where
  "pushedCalls_cjs C Cs K R r = (if int (Suc (length R)) = C then Cs @ [(R @ [r], K)] else Cs)"

definition pushedChunks_cjs :: "int \<Rightarrow> nat \<Rightarrow> row list \<Rightarrow> nat" where
  "pushedChunks_cjs C K R = (if int (Suc (length R)) = C then K + 1 else K)"

text \<open>Slot \<open>i\<close> of the row \<open>r\<close> is set and its value is a number under the unary plus.\<close>

definition numericAt :: "row \<Rightarrow> nat \<Rightarrow> bool" where
  "numericAt r i =
     (i < length r \<and> (case r ! i of None \<Rightarrow> False | Some val \<Rightarrow> \<not> plusIsNaN val))"

text \<open>A text whose first column holds \<open>1\<close> and \<open>y\<close> and whose second column holds \<open>x\<close> and
  \<open>2\<close> under the header.\<close>

definition mixed :: string where
  "mixed = ''a,b'' @ LF @ ''1,x'' @ LF @ ''y,2'' @ LF"

text \<open>Two lines without any candidate column delimiter.\<close>

definition undelimited :: string where
  "undelimited = ''abc'' @ LF @ ''def'' @ LF"

text \<open>The text \<open>a<LF>\<close>, and the state of the loop of \<open>parse\<close> on it, two columns declared,
  after the failed scan for the column delimiter that would end the first field.\<close>

definition shortRow :: string where
  "shortRow = ''a'' @ LF"

definition stalled :: "(row list) pstate" where
  "stalled = \<lparr>inCol = 1, pos = - 1, rows = [], v = ''a'', row = Array 2, colIdx = 0,
              calls = []\<rparr>"

definition stalled_cjs :: cstate where
  "stalled_cjs = \<lparr>inCol = 1, pos = - 1, rows = [], v = ''a'', row = Array 2, colIdx = 0,
                  calls = [], numChunks = 0\<rparr>"

section \<open>Facts about the string operations\<close>

lemma find_sub_Nil [simp]: "find_sub [] s = Some 0"
  by (cases s) simp_all

lemma find_sub_absent:
  "sub \<noteq> [] \<Longrightarrow> hd sub \<notin> set s \<Longrightarrow> find_sub sub s = None"
  by (induction s) (auto simp: prefix_Cons neq_Nil_conv)

lemma find_sub_here:
  "sub \<noteq> [] \<Longrightarrow> hd sub \<notin> set s \<Longrightarrow> find_sub sub (s @ sub @ rest) = Some (length s)"
  by (induction s) (auto simp: prefix_Cons neq_Nil_conv)

lemma find_sub_char:
  "c \<notin> set s \<Longrightarrow> find_sub [c] (s @ c # rest) = Some (length s)"
  using find_sub_here [of "[c]" s rest] by simp

lemma find_sub_bound:
  "find_sub sub s = Some k \<Longrightarrow> k + length sub \<le> length s"
proof (induction s arbitrary: k)
  case Nil
  then show ?case by (simp split: if_splits)
next
  case (Cons x xs)
  then show ?case
    by (auto split: if_splits dest: prefix_length_le)
qed

lemma indexOf_at:
  "p = int (length pre) \<Longrightarrow>
   indexOf (pre @ suf) sub p =
     (case find_sub sub suf of None \<Rightarrow> - 1 | Some k \<Rightarrow> p + int k)"
  by (simp add: indexOf_def split: option.splits)

lemma indexOf_range:
  "indexOf s sub p = - 1 \<or>
   (0 \<le> indexOf s sub p \<and> indexOf s sub p + int (length sub) \<le> int (length s) \<and>
    (p \<le> int (length s) \<longrightarrow> p \<le> indexOf s sub p))"
proof -
  define start where "start = nat (min (max p 0) (int (length s)))"
  show ?thesis
  proof (cases "find_sub sub (drop start s)")
    case None
    then show ?thesis by (simp add: indexOf_def start_def)
  next
    case (Some k)
    from find_sub_bound [OF Some] have "k + length sub \<le> length s - start" by simp
    moreover have "start \<le> length s" by (simp add: start_def)
    moreover have "indexOf s sub p = int (start + k)"
      using Some by (simp add: indexOf_def start_def)
    moreover have "p \<le> int (length s) \<Longrightarrow> p \<le> int start" by (simp add: start_def)
    ultimately show ?thesis by auto
  qed
qed

lemma indexOf_empty:
  "0 \<le> p \<Longrightarrow> p \<le> int (length s) \<Longrightarrow> indexOf s [] p = p"
  by (simp add: indexOf_def)

lemma slice_at:
  "p = int (length pre) \<Longrightarrow> slice (pre @ suf) p (p + int k) = take k suf"
  by (simp add: slice_def Let_def min_def)

lemma slice_empty: "slice s p p = []"
  by (simp add: slice_def Let_def)

lemma charCodeAt_at:
  "p = int (length pre) \<Longrightarrow>
   charCodeAt (pre @ suf) p = (case suf of [] \<Rightarrow> None | x # _ \<Rightarrow> Some x)"
  by (auto simp: charCodeAt_def nth_append split: list.splits)

lemma charCodeAt_next:
  "p = int (length pre) \<Longrightarrow>
   charCodeAt (pre @ x # suf) (p + 1) = (case suf of [] \<Rightarrow> None | y # _ \<Rightarrow> Some y)"
  using charCodeAt_at [of "p + 1" "pre @ [x]" suf] by simp

section \<open>The state machine of parse (src/uDSV.js) on well-formed text\<close>

lemma code_eq_simps [simp]:
  "code_eq (Some a) (Some b) = (a = b)"
  "code_eq None y = False"
  "code_eq x None = False"
  by (auto simp: code_eq_def)

lemma charCodeAt_0 [simp]: "charCodeAt (x # xs) 0 = Some x" "charCodeAt [] 0 = None"
  by (simp_all add: charCodeAt_def)

lemma charCodeAt_quote [simp]: "charCodeAt quote 0 = Some (CHR 0x22)"
  by (simp add: quote_def)

lemma charCodeAt_hd: "rd \<noteq> [] \<Longrightarrow> charCodeAt rd 0 = Some (hd rd)"
  by (cases rd) simp_all

lemma delimsOK_D:
  assumes "delimsOK c rd"
  shows "rd \<noteq> []" "c \<noteq> CHR 0x22" "hd rd \<noteq> CHR 0x22" "c \<noteq> hd rd"
    "charCodeAt rd 0 = Some (hd rd)"
  using assms by (cases rd; auto simp: delimsOK_def)+

lemma yields_step:
  assumes "pos s \<le> int (length csv) - 1"
    and "body csv cd rd nc lm pr s = Inr (Next s1)"
    and "yields (\<lambda>n. loop csv cd rd nc lm pr n s1) P"
  shows "yields (\<lambda>n. loop csv cd rd nc lm pr n s) P"
proof -
  from assms(3) obtain r k where r: "P r" "\<forall>n. loop csv cd rd nc lm pr (k + n) s1 = Some r"
    unfolding yields_def by blast
  have "\<forall>n. loop csv cd rd nc lm pr (Suc k + n) s = Some r"
    using assms(1,2) r(2) by simp
  with r(1) show ?thesis unfolding yields_def by blast
qed

lemma yields_return:
  assumes "pos s \<le> int (length csv) - 1"
    and "body csv cd rd nc lm pr s = Inr (Return s1)"
    and "P (Inr (calls s1))"
  shows "yields (\<lambda>n. loop csv cd rd nc lm pr n s) P"
proof -
  have "\<forall>n. loop csv cd rd nc lm pr (Suc 0 + n) s = Some (Inr (calls s1))"
    using assms(1,2) by simp
  with assms(3) show ?thesis unfolding yields_def by blast
qed

lemma yields_exit:
  assumes "\<not> pos s \<le> int (length csv) - 1"
    and "P (Inr (calls s @ [rows s @ [arr_set (row s) (colIdx s) (v s)]]))"
  shows "yields (\<lambda>n. loop csv cd rd nc lm pr n s) P"
proof -
  have "\<forall>n. loop csv cd rd nc lm pr (Suc 0 + n) s
          = Some (Inr (calls s @ [rows s @ [arr_set (row s) (colIdx s) (v s)]]))"
    using assms(1) by simp
  with assms(2) show ?thesis unfolding yields_def by blast
qed

lemma plain_head:
  assumes "fieldOK c rd (Plain s)" "s \<noteq> []" "delimsOK c rd"
  shows "hd s \<noteq> CHR 0x22" "hd s \<noteq> c" "hd s \<noteq> hd rd" "hd rd \<notin> set s"
  using assms by (cases s; auto simp: delimsOK_def neq_Nil_conv)+

lemma body_scan_col:
  assumes csv: "csv = pre @ s @ c # rest" and p: "p = int (length pre)"
    and ok: "fieldOK c rd (Plain s)" "s \<noteq> []" "delimsOK c rd"
    and k: "int k \<noteq> int nc - 1"
  shows "body csv [c] rd nc lm False
           \<lparr>inCol = 0, pos = p, rows = R, v = x, row = r, colIdx = k, calls = C\<rparr>
         = Inr (Next \<lparr>inCol = 1, pos = p + int (length s), rows = R, v = x @ s, row = r,
                      colIdx = k, calls = C\<rparr>)"
proof -
  obtain y s' where s: "s = y # s'" using ok(2) by (cases s) auto
  have hd: "y \<noteq> CHR 0x22" "y \<noteq> c" "y \<noteq> hd rd" using plain_head [OF ok] s by simp_all
  have rd: "charCodeAt rd 0 = Some (hd rd)" using ok(3) by (simp add: delimsOK_def charCodeAt_hd)
  have ch: "charCodeAt csv p = Some y"
    using charCodeAt_at [OF p, of "s @ c # rest"] csv s by simp
  have "c \<notin> set s" using ok(1) by simp
  then have idx: "indexOf csv [c] p = p + int (length s)"
    using indexOf_at [OF p, of "s @ c # rest" "[c]"] csv by (simp add: find_sub_char)
  have sl: "slice csv p (p + int (length s)) = s"
    using slice_at [OF p, of "s @ c # rest" "length s"] csv by simp
  show ?thesis
    using hd k by (simp add: body_def unstarted_def unquoted_def scanUnquoted_def ch rd idx sl Let_def)
qed


lemma body_scan_last_rd:
  assumes csv: "csv = pre @ s @ rd @ rest" and p: "p = int (length pre)"
    and ok: "fieldOK c rd (Plain s)" "s \<noteq> []" "delimsOK c rd"
    and k: "int k = int nc - 1"
  shows "body csv [c] rd nc lm False
           \<lparr>inCol = 0, pos = p, rows = R, v = x, row = r, colIdx = k, calls = C\<rparr>
         = Inr (Next \<lparr>inCol = 1, pos = p + int (length s), rows = R, v = x @ s, row = r,
                      colIdx = k, calls = C\<rparr>)"
proof -
  obtain y s' where s: "s = y # s'" using ok(2) by (cases s) auto
  have hd: "y \<noteq> CHR 0x22" "y \<noteq> c" "y \<noteq> hd rd" using plain_head [OF ok] s by simp_all
  have rdne: "rd \<noteq> []" using ok(3) by (simp add: delimsOK_def)
  have rd: "charCodeAt rd 0 = Some (hd rd)" using rdne by (simp add: charCodeAt_hd)
  have ch: "charCodeAt csv p = Some y"
    using charCodeAt_at [OF p, of "s @ rd @ rest"] csv s by simp
  have "hd rd \<notin> set s" using plain_head [OF ok] by simp
  then have idx: "indexOf csv rd p = p + int (length s)"
    using indexOf_at [OF p, of "s @ rd @ rest" rd] csv rdne by (simp add: find_sub_here)
  have sl: "slice csv p (p + int (length s)) = s"
    using slice_at [OF p, of "s @ rd @ rest" "length s"] csv by simp
  have "p + int (length s) \<noteq> - 1" using p by simp
  then show ?thesis
    using hd k by (simp add: body_def unstarted_def unquoted_def scanUnquoted_def ch rd idx sl Let_def)
qed

lemma body_scan_last_end:
  assumes csv: "csv = pre @ s" and p: "p = int (length pre)"
    and ok: "fieldOK c rd (Plain s)" "s \<noteq> []" "delimsOK c rd"
    and k: "int k = int nc - 1"
  shows "body csv [c] rd nc lm False
           \<lparr>inCol = 0, pos = p, rows = R, v = x, row = r, colIdx = k, calls = C\<rparr>
         = Inr (Next \<lparr>inCol = 1, pos = p + int (length s), rows = R, v = x @ s, row = r,
                      colIdx = k, calls = C\<rparr>)"
proof -
  obtain y s' where s: "s = y # s'" using ok(2) by (cases s) auto
  have hd: "y \<noteq> CHR 0x22" "y \<noteq> c" "y \<noteq> hd rd" using plain_head [OF ok] s by simp_all
  have rdne: "rd \<noteq> []" using ok(3) by (simp add: delimsOK_def)
  have rd: "charCodeAt rd 0 = Some (hd rd)" using rdne by (simp add: charCodeAt_hd)
  have ch: "charCodeAt csv p = Some y"
    using charCodeAt_at [OF p, of s] csv s by simp
  have "hd rd \<notin> set s" using plain_head [OF ok] by simp
  then have idx: "indexOf csv rd p = - 1"
    using indexOf_at [OF p, of s rd] csv rdne by (simp add: find_sub_absent)
  have len: "int (length csv) = p + int (length s)" using csv p by simp
  have sl: "slice csv p (p + int (length s)) = s"
    using slice_at [OF p, of s "length s"] csv by simp
  show ?thesis
    using hd k by (simp add: body_def unstarted_def unquoted_def scanUnquoted_def ch rd idx sl len Let_def)
qed

lemma body_commit_col:
  assumes csv: "csv = pre @ c # rest" and p: "p = int (length pre)"
    and ok: "delimsOK c rd" and ic: "ic = 0 \<or> ic = 1"
  shows "body csv [c] rd nc lm pr
           \<lparr>inCol = ic, pos = p, rows = R, v = x, row = r, colIdx = k, calls = C\<rparr>
         = Inr (Next \<lparr>inCol = 0, pos = p + 1, rows = R, v = [], row = arr_set r k x,
                      colIdx = Suc k, calls = C\<rparr>)"
proof -
  have rdne: "rd \<noteq> []" and ne: "c \<noteq> CHR 0x22" "c \<noteq> hd rd"
    using delimsOK_D [OF ok] by simp_all
  have rd: "charCodeAt rd 0 = Some (hd rd)" using rdne by (simp add: charCodeAt_hd)
  have ch: "charCodeAt csv p = Some c"
    using charCodeAt_at [OF p, of "c # rest"] csv by simp
  show ?thesis
    using ic ne by (auto simp add: body_def unstarted_def unquoted_def pushMacro_def ch rd Let_def)
qed

lemma body_commit_row:
  assumes csv: "csv = pre @ rd @ rest" and p: "p = int (length pre)"
    and ok: "delimsOK c rd" and ic: "ic = 0 \<or> ic = 1"
  shows "body csv [c] rd nc lm pr
           \<lparr>inCol = ic, pos = p, rows = R, v = x, row = r, colIdx = k, calls = C\<rparr>
         = (if lm = Some (int (length R) + 1)
            then Inr (Return \<lparr>inCol = ic, pos = p + 1, rows = R @ [arr_set r k x], v = [],
                              row = arr_set r k x, colIdx = Suc k,
                              calls = C @ [R @ [arr_set r k x]]\<rparr>)
            else Inr (Next \<lparr>inCol = 0, pos = p + int (length rd),
                            rows = pushedRows R (arr_set r k x),
                            v = [], row = Array nc, colIdx = 0,
                            calls = pushedCalls C R (arr_set r k x)\<rparr>))"
proof -
  have rdne: "rd \<noteq> []" and ne: "hd rd \<noteq> CHR 0x22" "c \<noteq> hd rd"
    using delimsOK_D [OF ok] by simp_all
  have rd: "charCodeAt rd 0 = Some (hd rd)" using rdne by (simp add: charCodeAt_hd)
  have ch: "charCodeAt csv p = Some (hd rd)"
    using charCodeAt_at [OF p, of "rd @ rest"] csv rdne by (cases rd) simp_all
  show ?thesis
    using ic ne
    by (auto simp add: body_def unstarted_def unquoted_def pushMacro_def ch rd Let_def
          pushedRows_def pushedCalls_def)
qed


lemma body_in_quote:
  "body csv cd rd nc lm pr
     \<lparr>inCol = 2, pos = p, rows = R, v = x, row = r, colIdx = k, calls = C\<rparr>
   = Inr (Next (quoted csv (charCodeAt csv p)
       \<lparr>inCol = 2, pos = p, rows = R, v = x, row = r, colIdx = k, calls = C\<rparr>))"
  by (simp add: body_def unstarted_def Let_def)

lemma body_open_quote:
  assumes csv: "csv = pre @ CHR 0x22 # rest" and p: "p = int (length pre)"
  shows "body csv cd rd nc lm pr
           \<lparr>inCol = 0, pos = p, rows = R, v = x, row = r, colIdx = k, calls = C\<rparr>
         = body csv cd rd nc lm pr
           \<lparr>inCol = 2, pos = p + 1, rows = R, v = x, row = r, colIdx = k, calls = C\<rparr>"
proof -
  have ch: "charCodeAt csv p = Some (CHR 0x22)"
    using charCodeAt_at [OF p, of "CHR 0x22 # rest"] csv by simp
  show ?thesis
    by (simp add: body_def unstarted_def ch Let_def)
qed

lemma loop_same_body:
  assumes "pos s \<le> int (length csv) - 1" "pos t \<le> int (length csv) - 1"
    and "body csv cd rd nc lm pr s = body csv cd rd nc lm pr t"
  shows "loop csv cd rd nc lm pr n s = loop csv cd rd nc lm pr n t"
  using assms by (cases n) simp_all

lemma escape_split:
  "escape w = takeWhile (\<lambda>z. z \<noteq> CHR 0x22) w @ escape (dropWhile (\<lambda>z. z \<noteq> CHR 0x22) w)"
  by (induction w) simp_all

lemma length_escape_ge: "length w \<le> length (escape w)"
  by (induction w) simp_all

text \<open>From inside a quoted field to the state after its closing quote.\<close>

lemma quoted_field_steps:
  assumes "csv = pre @ escape w @ CHR 0x22 # rest" "p = int (length pre)"
    and "rest = [] \<or> hd rest \<noteq> CHR 0x22"
    and "yields (\<lambda>n. loop csv cd rd nc lm pr n
           \<lparr>inCol = 0, pos = p + int (length (escape w)) + 1, rows = R, v = x @ w, row = r,
            colIdx = k, calls = C\<rparr>) P"
  shows "yields (\<lambda>n. loop csv cd rd nc lm pr n
           \<lparr>inCol = 2, pos = p, rows = R, v = x, row = r, colIdx = k, calls = C\<rparr>) P"
  using assms
proof (induction "length w" arbitrary: w pre p x rule: less_induct)
  case less
  note csv = less.prems(1) and p = less.prems(2) and rest = less.prems(3) and fin = less.prems(4)
  have guard: "p \<le> int (length csv) - 1" using csv p by simp
  show ?case
  proof (cases w)
    case Nil
    have ch: "charCodeAt csv p = Some (CHR 0x22)"
      using charCodeAt_at [OF p, of "CHR 0x22 # rest"] csv Nil by simp
    have nx: "\<not> code_eq (charCodeAt csv (p + 1)) (Some (CHR 0x22))"
      using charCodeAt_next [OF p, of "CHR 0x22" rest] csv Nil rest
      by (cases rest) auto
    have "body csv cd rd nc lm pr
            \<lparr>inCol = 2, pos = p, rows = R, v = x, row = r, colIdx = k, calls = C\<rparr>
          = Inr (Next \<lparr>inCol = 0, pos = p + 1, rows = R, v = x, row = r, colIdx = k,
                       calls = C\<rparr>)"
      using nx by (simp add: body_in_quote quoted_def ch)
    then show ?thesis
      using yields_step [OF _ _ fin [unfolded Nil]] guard by simp
  next
    case (Cons y w')
    show ?thesis
    proof (cases "y = CHR 0x22")
      case True
      have csv': "csv = (pre @ [CHR 0x22, CHR 0x22]) @ escape w' @ CHR 0x22 # rest"
        using csv Cons True by simp
      have ch: "charCodeAt csv p = Some (CHR 0x22)"
        using charCodeAt_at [OF p, of "escape w @ CHR 0x22 # rest"] csv Cons True by simp
      have nx: "charCodeAt csv (p + 1) = Some (CHR 0x22)"
        using charCodeAt_next [OF p, of "CHR 0x22" "CHR 0x22 # escape w' @ CHR 0x22 # rest"]
          csv Cons True by simp
      have step: "body csv cd rd nc lm pr
            \<lparr>inCol = 2, pos = p, rows = R, v = x, row = r, colIdx = k, calls = C\<rparr>
          = Inr (Next \<lparr>inCol = 2, pos = p + 2, rows = R, v = x @ quote, row = r, colIdx = k,
                       calls = C\<rparr>)"
        by (simp add: body_in_quote quoted_def ch nx)
      have "yields (\<lambda>n. loop csv cd rd nc lm pr n
           \<lparr>inCol = 2, pos = p + 2, rows = R, v = x @ quote, row = r, colIdx = k, calls = C\<rparr>) P"
      proof (rule less.hyps [OF _ csv' _ rest])
        show "length w' < length w" using Cons by simp
        show "p + 2 = int (length (pre @ [CHR 0x22, CHR 0x22]))" using p by simp
        show "yields (\<lambda>n. loop csv cd rd nc lm pr n
           \<lparr>inCol = 0, pos = p + 2 + int (length (escape w')) + 1, rows = R,
            v = (x @ quote) @ w', row = r, colIdx = k, calls = C\<rparr>) P"
          using fin Cons True by (simp add: quote_def add.commute add.left_commute)
      qed
      then show ?thesis
        using yields_step [OF _ step] guard by simp
    next
      case False
      define a where "a = takeWhile (\<lambda>z. z \<noteq> CHR 0x22) w"
      define b where "b = dropWhile (\<lambda>z. z \<noteq> CHR 0x22) w"
      have ab: "w = a @ b" and esc: "escape w = a @ escape b"
        using escape_split [of w] by (simp_all add: a_def b_def)
      have ane: "a \<noteq> []" and anq: "CHR 0x22 \<notin> set a"
        using Cons False by (auto simp: a_def dest: set_takeWhileD)
      have bhd: "b = [] \<or> hd b = CHR 0x22"
        using hd_dropWhile [of "\<lambda>z. z \<noteq> CHR 0x22" w] by (auto simp: b_def)
      obtain zz where zz: "escape b @ CHR 0x22 # rest = CHR 0x22 # zz"
        using bhd by (cases b) auto
      have csv2: "csv = pre @ a @ CHR 0x22 # zz" using csv esc zz by simp
      have csv': "csv = (pre @ a) @ escape b @ CHR 0x22 # rest" using csv esc by simp
      have ch: "charCodeAt csv p = Some (hd a)"
        using charCodeAt_at [OF p, of "a @ CHR 0x22 # zz"] csv2 ane by (cases a) simp_all
      have hda: "hd a \<noteq> CHR 0x22" using ane anq by (cases a) auto
      have idx: "indexOf csv quote p = p + int (length a)"
        using indexOf_at [OF p, of "a @ CHR 0x22 # zz" quote] csv2 anq
        by (simp add: quote_def find_sub_char)
      have sl: "slice csv p (p + int (length a)) = a"
        using slice_at [OF p, of "a @ CHR 0x22 # zz" "length a"] csv2 by simp
      have step: "body csv cd rd nc lm pr
            \<lparr>inCol = 2, pos = p, rows = R, v = x, row = r, colIdx = k, calls = C\<rparr>
          = Inr (Next \<lparr>inCol = 2, pos = p + int (length a), rows = R, v = x @ a, row = r,
                       colIdx = k, calls = C\<rparr>)"
        using hda by (simp add: body_in_quote quoted_def ch idx sl Let_def)
      have "yields (\<lambda>n. loop csv cd rd nc lm pr n
           \<lparr>inCol = 2, pos = p + int (length a), rows = R, v = x @ a, row = r, colIdx = k,
            calls = C\<rparr>) P"
      proof (rule less.hyps [OF _ csv' _ rest])
        show "length b < length w" using ab ane by simp
        show "p + int (length a) = int (length (pre @ a))" using p by simp
        show "yields (\<lambda>n. loop csv cd rd nc lm pr n
           \<lparr>inCol = 0, pos = p + int (length a) + int (length (escape b)) + 1, rows = R,
            v = (x @ a) @ b, row = r, colIdx = k, calls = C\<rparr>) P"
          using fin ab esc by (simp add: add.commute add.left_commute)
      qed
      then show ?thesis
        using yields_step [OF _ step] guard by simp
    qed
  qed
qed


lemma yields_same_body:
  assumes "pos s \<le> int (length csv) - 1" "pos t \<le> int (length csv) - 1"
    and "body csv cd rd nc lm pr s = body csv cd rd nc lm pr t"
    and "yields (\<lambda>n. loop csv cd rd nc lm pr n t) P"
  shows "yields (\<lambda>n. loop csv cd rd nc lm pr n s) P"
  using assms(4) loop_same_body [OF assms(1-3)] by (simp add: yields_def)

text \<open>Reading a field up to the delimiter (or the end of the text) that follows it: a field
  that is not in the last column is followed by the column delimiter, a field in the last
  column by the row delimiter or by nothing.\<close>

lemma read_field:
  assumes csv: "csv = pre @ fieldText f @ rest" and p: "p = int (length pre)"
    and ok: "fieldOK c rd f" "delimsOK c rd"
    and ctx: "(int k \<noteq> int nc - 1 \<and> (\<exists>t. rest = c # t)) \<or>
              (int k = int nc - 1 \<and> ((\<exists>t. rest = rd @ t) \<or> rest = []))"
    and fin: "\<And>ic. ic = 0 \<or> ic = 1 \<Longrightarrow>
       yields (\<lambda>n. loop csv [c] rd nc lm False n
         \<lparr>inCol = ic, pos = p + int (length (fieldText f)), rows = R, v = fieldValue f,
          row = r, colIdx = k, calls = C\<rparr>) P"
  shows "yields (\<lambda>n. loop csv [c] rd nc lm False n
         \<lparr>inCol = 0, pos = p, rows = R, v = [], row = r, colIdx = k, calls = C\<rparr>) P"
proof (cases f)
  case (Plain s)
  show ?thesis
  proof (cases "s = []")
    case True
    then show ?thesis using fin [of 0] Plain by simp
  next
    case False
    have okp: "fieldOK c rd (Plain s)" using ok(1) Plain by simp
    have guard: "p \<le> int (length csv) - 1" using csv p Plain False by (cases s) simp_all
    have "body csv [c] rd nc lm False
           \<lparr>inCol = 0, pos = p, rows = R, v = [], row = r, colIdx = k, calls = C\<rparr>
         = Inr (Next \<lparr>inCol = 1, pos = p + int (length s), rows = R, v = [] @ s, row = r,
                      colIdx = k, calls = C\<rparr>)"
      using ctx
    proof (elim disjE conjE exE)
      fix t assume "int k \<noteq> int nc - 1" "rest = c # t"
      then show ?thesis
        using body_scan_col [OF _ p okp False ok(2), of csv t k nc] csv Plain by simp
    next
      fix t assume "int k = int nc - 1" "rest = rd @ t"
      then show ?thesis
        using body_scan_last_rd [OF _ p okp False ok(2), of csv t k nc] csv Plain by simp
    next
      assume "int k = int nc - 1" "rest = []"
      then show ?thesis
        using body_scan_last_end [OF _ p okp False ok(2), of csv k nc] csv Plain by simp
    qed
    then show ?thesis
      using yields_step [OF _ _ fin [of 1]] guard Plain by simp
  qed
next
  case (Quoted w)
  have csv1: "csv = pre @ CHR 0x22 # (escape w @ CHR 0x22 # rest)"
    using csv Quoted by (simp add: quote_def)
  have csv2: "csv = (pre @ [CHR 0x22]) @ escape w @ CHR 0x22 # rest"
    using csv1 by simp
  have rest: "rest = [] \<or> hd rest \<noteq> CHR 0x22"
    using ctx delimsOK_D [OF ok(2)] by (cases rd) auto
  have a: "yields (\<lambda>n. loop csv [c] rd nc lm False n
         \<lparr>inCol = 2, pos = p + 1, rows = R, v = [], row = r, colIdx = k, calls = C\<rparr>) P"
  proof (rule quoted_field_steps [OF csv2 _ rest])
    show "p + 1 = int (length (pre @ [CHR 0x22]))" using p by simp
    show "yields (\<lambda>n. loop csv [c] rd nc lm False n
         \<lparr>inCol = 0, pos = p + 1 + int (length (escape w)) + 1, rows = R, v = [] @ w,
          row = r, colIdx = k, calls = C\<rparr>) P"
      using fin [of 0] Quoted by (simp add: quote_def add.commute add.left_commute)
  qed
  show ?thesis
  proof (rule yields_same_body [OF _ _ body_open_quote [OF csv1 p] a])
    show "pos \<lparr>inCol = 0, pos = p, rows = R, v = [], row = r, colIdx = k, calls = C\<rparr>
            \<le> int (length csv) - 1" using csv1 p by simp
    show "pos \<lparr>inCol = 2, pos = p + 1, rows = R, v = [], row = r, colIdx = k, calls = C\<rparr>
            \<le> int (length csv) - 1" using csv1 p by simp
  qed
qed

lemma field_col:
  assumes csv: "csv = pre @ fieldText f @ c # rest" and p: "p = int (length pre)"
    and ok: "fieldOK c rd f" "delimsOK c rd" and k: "int k \<noteq> int nc - 1"
    and fin: "yields (\<lambda>n. loop csv [c] rd nc lm False n
         \<lparr>inCol = 0, pos = p + int (length (fieldText f)) + 1, rows = R, v = [],
          row = arr_set r k (fieldValue f), colIdx = Suc k, calls = C\<rparr>) P"
  shows "yields (\<lambda>n. loop csv [c] rd nc lm False n
         \<lparr>inCol = 0, pos = p, rows = R, v = [], row = r, colIdx = k, calls = C\<rparr>) P"
proof (rule read_field [OF csv p ok])
  show "(int k \<noteq> int nc - 1 \<and> (\<exists>t. c # rest = c # t)) \<or>
        (int k = int nc - 1 \<and> ((\<exists>t. c # rest = rd @ t) \<or> c # rest = []))"
    using k by simp
next
  fix ic :: nat assume ic: "ic = 0 \<or> ic = 1"
  have csv': "csv = (pre @ fieldText f) @ c # rest" using csv by simp
  have p': "p + int (length (fieldText f)) = int (length (pre @ fieldText f))" using p by simp
  show "yields (\<lambda>n. loop csv [c] rd nc lm False n
         \<lparr>inCol = ic, pos = p + int (length (fieldText f)), rows = R, v = fieldValue f,
          row = r, colIdx = k, calls = C\<rparr>) P"
    using yields_step [OF _ body_commit_col [OF csv' p' ok(2) ic] fin] csv p by simp
qed

lemma field_last_rd:
  assumes csv: "csv = pre @ fieldText f @ rd @ rest" and p: "p = int (length pre)"
    and ok: "fieldOK c rd f" "delimsOK c rd" and k: "int k = int nc - 1"
    and ret: "lm = Some (int (length R) + 1) \<Longrightarrow>
                P (Inr (C @ [R @ [arr_set r k (fieldValue f)]]))"
    and fin: "lm \<noteq> Some (int (length R) + 1) \<Longrightarrow>
       yields (\<lambda>n. loop csv [c] rd nc lm False n
         \<lparr>inCol = 0, pos = p + int (length (fieldText f)) + int (length rd),
          rows = pushedRows R (arr_set r k (fieldValue f)),
          v = [], row = Array nc, colIdx = 0,
          calls = pushedCalls C R (arr_set r k (fieldValue f))\<rparr>) P"
  shows "yields (\<lambda>n. loop csv [c] rd nc lm False n
         \<lparr>inCol = 0, pos = p, rows = R, v = [], row = r, colIdx = k, calls = C\<rparr>) P"
proof (rule read_field [OF csv p ok])
  show "(int k \<noteq> int nc - 1 \<and> (\<exists>t. rd @ rest = c # t)) \<or>
        (int k = int nc - 1 \<and> ((\<exists>t. rd @ rest = rd @ t) \<or> rd @ rest = []))"
    using k by simp
next
  fix ic :: nat assume ic: "ic = 0 \<or> ic = 1"
  have csv': "csv = (pre @ fieldText f) @ rd @ rest" using csv by simp
  have p': "p + int (length (fieldText f)) = int (length (pre @ fieldText f))" using p by simp
  have guard: "p + int (length (fieldText f)) \<le> int (length csv) - 1"
    using csv p delimsOK_D(1) [OF ok(2)] by (cases rd) simp_all
  note b = body_commit_row [OF csv' p' ok(2) ic, of nc lm False R "fieldValue f" r k C]
  show "yields (\<lambda>n. loop csv [c] rd nc lm False n
         \<lparr>inCol = ic, pos = p + int (length (fieldText f)), rows = R, v = fieldValue f,
          row = r, colIdx = k, calls = C\<rparr>) P"
  proof (cases "lm = Some (int (length R) + 1)")
    case True
    show ?thesis
      by (rule yields_return [where ?s1.0 = "\<lparr>inCol = ic, pos = p + int (length (fieldText f)) + 1, rows = R @ [arr_set r k (fieldValue f)], v = [],
                              row = arr_set r k (fieldValue f), colIdx = Suc k,
                              calls = C @ [R @ [arr_set r k (fieldValue f)]]\<rparr>"])
         (use guard b True ret in simp_all)
  next
    case False
    show ?thesis
      using yields_step [OF _ _ fin [OF False]] guard b False by simp
  qed
qed

lemma field_last_end:
  assumes csv: "csv = pre @ fieldText f" and p: "p = int (length pre)"
    and ok: "fieldOK c rd f" "delimsOK c rd" and k: "int k = int nc - 1"
    and ret: "P (Inr (C @ [R @ [arr_set r k (fieldValue f)]]))"
  shows "yields (\<lambda>n. loop csv [c] rd nc lm False n
         \<lparr>inCol = 0, pos = p, rows = R, v = [], row = r, colIdx = k, calls = C\<rparr>) P"
proof (rule read_field [OF _ p ok])
  show "csv = pre @ fieldText f @ []" using csv by simp
  show "(int k \<noteq> int nc - 1 \<and> (\<exists>t. [] = c # t)) \<or>
        (int k = int nc - 1 \<and> ((\<exists>t. [] = rd @ t) \<or> ([]::string) = []))"
    using k by simp
next
  fix ic :: nat assume ic: "ic = 0 \<or> ic = 1"
  show "yields (\<lambda>n. loop csv [c] rd nc lm False n
         \<lparr>inCol = ic, pos = p + int (length (fieldText f)), rows = R, v = fieldValue f,
          row = r, colIdx = k, calls = C\<rparr>) P"
    by (rule yields_exit) (use csv p ret in simp_all)
qed


lemma filled_Nil: "filled nc [] = Array nc"
  by (simp add: filled_def Array_def)

lemma arr_set_filled:
  "length vals < nc \<Longrightarrow> arr_set (filled nc vals) (length vals) x = filled nc (vals @ [x])"
proof -
  assume a: "length vals < nc"
  then obtain m where m: "nc - length vals = Suc m" by (cases "nc - length vals") auto
  then have m': "nc - Suc (length vals) = m" by simp
  show ?thesis
    using a by (simp add: arr_set_def filled_def m m' list_update_append)
qed

lemma filled_full: "length vals = nc \<Longrightarrow> filled nc vals = map Some vals"
  by (simp add: filled_def)

lemma rowText_snoc:
  "rowText c (fs @ [f]) = concat (map (\<lambda>g. fieldText g @ [c]) fs) @ fieldText f"
  by (induction fs rule: rowText.induct) simp_all

lemma row_prefix:
  assumes "csv = pre @ concat (map (\<lambda>g. fieldText g @ [c]) fs) @ rest" "p = int (length pre)"
    and "list_all (fieldOK c rd) fs" "delimsOK c rd" "length vals + length fs < nc"
    and "yields (\<lambda>n. loop csv [c] rd nc lm False n
         \<lparr>inCol = 0, pos = p + int (length (concat (map (\<lambda>g. fieldText g @ [c]) fs))),
          rows = R, v = [], row = filled nc (vals @ map fieldValue fs),
          colIdx = length vals + length fs, calls = C\<rparr>) P"
  shows "yields (\<lambda>n. loop csv [c] rd nc lm False n
         \<lparr>inCol = 0, pos = p, rows = R, v = [], row = filled nc vals, colIdx = length vals,
          calls = C\<rparr>) P"
  using assms
proof (induction fs arbitrary: pre p vals)
  case Nil
  then show ?case by simp
next
  case (Cons f fs)
  note csv = Cons.prems(1) and p = Cons.prems(2) and ok = Cons.prems(3,4)
    and len = Cons.prems(5) and fin = Cons.prems(6)
  have csv1: "csv = pre @ fieldText f @ c # (concat (map (\<lambda>g. fieldText g @ [c]) fs) @ rest)"
    using csv by simp
  have csv2: "csv = (pre @ fieldText f @ [c]) @ concat (map (\<lambda>g. fieldText g @ [c]) fs) @ rest"
    using csv by simp
  have okf: "fieldOK c rd f" and okfs: "list_all (fieldOK c rd) fs" using ok(1) by simp_all
  have k: "int (length vals) \<noteq> int nc - 1" using len by simp
  have lt: "length vals < nc" using len by simp
  have next_state: "yields (\<lambda>n. loop csv [c] rd nc lm False n
         \<lparr>inCol = 0, pos = p + int (length (fieldText f)) + 1, rows = R, v = [],
          row = filled nc (vals @ [fieldValue f]), colIdx = length (vals @ [fieldValue f]),
          calls = C\<rparr>) P"
  proof (rule Cons.IH [OF csv2 _ okfs ok(2)])
    show "p + int (length (fieldText f)) + 1 = int (length (pre @ fieldText f @ [c]))"
      using p by simp
    show "length (vals @ [fieldValue f]) + length fs < nc" using len by simp
    show "yields (\<lambda>n. loop csv [c] rd nc lm False n
         \<lparr>inCol = 0,
          pos = p + int (length (fieldText f)) + 1
                  + int (length (concat (map (\<lambda>g. fieldText g @ [c]) fs))),
          rows = R, v = [], row = filled nc ((vals @ [fieldValue f]) @ map fieldValue fs),
          colIdx = length (vals @ [fieldValue f]) + length fs, calls = C\<rparr>) P"
      using fin by (simp add: ac_simps)
  qed
  show ?case
    by (rule field_col [OF csv1 p okf ok(2) k]) (use next_state lt in \<open>simp add: arr_set_filled\<close>)
qed

lemma row_split:
  assumes "rowOK nc c rd r" "0 < nc"
  obtains fs f where "r = fs @ [f]" "length fs = nc - 1" "list_all (fieldOK c rd) fs"
    "fieldOK c rd f"
proof -
  from assms have ne: "r \<noteq> []" by (auto simp: rowOK_def)
  then have r: "r = butlast r @ [last r]" by simp
  from assms have all: "list_all (fieldOK c rd) (butlast r @ [last r])"
    using r by (simp add: rowOK_def)
  show ?thesis
  proof (rule that [OF r])
    show "length (butlast r) = nc - 1" using assms by (simp add: rowOK_def)
    show "list_all (fieldOK c rd) (butlast r)" using all by simp
    show "fieldOK c rd (last r)" using all by simp
  qed
qed

lemma row_full:
  assumes "r = fs @ [f]" "length fs = nc - 1" "0 < nc"
  shows "arr_set (filled nc (map fieldValue fs)) (length fs) (fieldValue f) = rowValues r"
proof -
  have lt: "length (map fieldValue fs) < nc" using assms by simp
  have eq: "length (map fieldValue fs @ [fieldValue f]) = nc" using assms by simp
  show ?thesis
    using arr_set_filled [OF lt, of "fieldValue f"] filled_full [OF eq]
    by (simp add: rowValues_def assms(1))
qed

lemma row_rd:
  assumes csv: "csv = pre @ rowText c r @ rd @ rest" and p: "p = int (length pre)"
    and ok: "rowOK nc c rd r" "0 < nc" "delimsOK c rd"
    and ret: "lm = Some (int (length R) + 1) \<Longrightarrow> P (Inr (C @ [R @ [rowValues r]]))"
    and fin: "lm \<noteq> Some (int (length R) + 1) \<Longrightarrow>
       yields (\<lambda>n. loop csv [c] rd nc lm False n
         \<lparr>inCol = 0, pos = p + int (length (rowText c r)) + int (length rd),
          rows = pushedRows R (rowValues r),
          v = [], row = Array nc, colIdx = 0,
          calls = pushedCalls C R (rowValues r)\<rparr>) P"
  shows "yields (\<lambda>n. loop csv [c] rd nc lm False n
         \<lparr>inCol = 0, pos = p, rows = R, v = [], row = Array nc, colIdx = 0, calls = C\<rparr>) P"
proof -
  obtain fs f where r: "r = fs @ [f]" and len: "length fs = nc - 1"
    and okfs: "list_all (fieldOK c rd) fs" and okf: "fieldOK c rd f"
    using row_split [OF ok(1,2)] by blast
  define ct where "ct = concat (map (\<lambda>g. fieldText g @ [c]) fs)"
  have rt: "rowText c r = ct @ fieldText f" using r by (simp add: rowText_snoc ct_def)
  have csv1: "csv = pre @ ct @ (fieldText f @ rd @ rest)" using csv rt by simp
  have csv2: "csv = (pre @ ct) @ fieldText f @ rd @ rest" using csv rt by simp
  have full: "arr_set (filled nc (map fieldValue fs)) (length fs) (fieldValue f) = rowValues r"
    using row_full [OF r len ok(2)] .
  have last: "yields (\<lambda>n. loop csv [c] rd nc lm False n
         \<lparr>inCol = 0, pos = p + int (length ct), rows = R, v = [],
          row = filled nc (map fieldValue fs), colIdx = length fs, calls = C\<rparr>) P"
  proof (rule field_last_rd [OF csv2 _ okf ok(3)])
    show "p + int (length ct) = int (length (pre @ ct))" using p by simp
    show "int (length fs) = int nc - 1" using len ok(2) by simp
    show "P (Inr (C @ [R @ [arr_set (filled nc (map fieldValue fs)) (length fs) (fieldValue f)]]))"
      if "lm = Some (int (length R) + 1)"
      using ret [OF that] full by simp
    show "yields (\<lambda>n. loop csv [c] rd nc lm False n
         \<lparr>inCol = 0, pos = p + int (length ct) + int (length (fieldText f)) + int (length rd),
          rows = pushedRows R (arr_set (filled nc (map fieldValue fs)) (length fs) (fieldValue f)),
          v = [], row = Array nc, colIdx = 0,
          calls = pushedCalls C R
                    (arr_set (filled nc (map fieldValue fs)) (length fs) (fieldValue f))\<rparr>) P"
      if "lm \<noteq> Some (int (length R) + 1)"
      using fin [OF that] full rt by (simp add: ac_simps)
  qed
  have "yields (\<lambda>n. loop csv [c] rd nc lm False n
         \<lparr>inCol = 0, pos = p, rows = R, v = [], row = filled nc [], colIdx = length ([]::string list),
          calls = C\<rparr>) P"
    by (rule row_prefix [OF csv1 [unfolded ct_def] p okfs ok(3)])
       (use last len ok(2) in \<open>simp_all add: ct_def\<close>)
  then show ?thesis by (simp add: filled_Nil)
qed

lemma row_end:
  assumes csv: "csv = pre @ rowText c r" and p: "p = int (length pre)"
    and ok: "rowOK nc c rd r" "0 < nc" "delimsOK c rd"
    and ret: "P (Inr (C @ [R @ [rowValues r]]))"
  shows "yields (\<lambda>n. loop csv [c] rd nc lm False n
         \<lparr>inCol = 0, pos = p, rows = R, v = [], row = Array nc, colIdx = 0, calls = C\<rparr>) P"
proof -
  obtain fs f where r: "r = fs @ [f]" and len: "length fs = nc - 1"
    and okfs: "list_all (fieldOK c rd) fs" and okf: "fieldOK c rd f"
    using row_split [OF ok(1,2)] by blast
  define ct where "ct = concat (map (\<lambda>g. fieldText g @ [c]) fs)"
  have rt: "rowText c r = ct @ fieldText f" using r by (simp add: rowText_snoc ct_def)
  have csv1: "csv = pre @ ct @ fieldText f" using csv rt by simp
  have csv2: "csv = (pre @ ct) @ fieldText f" using csv rt by simp
  have full: "arr_set (filled nc (map fieldValue fs)) (length fs) (fieldValue f) = rowValues r"
    using row_full [OF r len ok(2)] .
  have last: "yields (\<lambda>n. loop csv [c] rd nc lm False n
         \<lparr>inCol = 0, pos = p + int (length ct), rows = R, v = [],
          row = filled nc (map fieldValue fs), colIdx = length fs, calls = C\<rparr>) P"
  proof (rule field_last_end [OF csv2 _ okf ok(3)])
    show "p + int (length ct) = int (length (pre @ ct))" using p by simp
    show "int (length fs) = int nc - 1" using len ok(2) by simp
    show "P (Inr (C @ [R @ [arr_set (filled nc (map fieldValue fs)) (length fs) (fieldValue f)]]))"
      using ret full by simp
  qed
  have "yields (\<lambda>n. loop csv [c] rd nc lm False n
         \<lparr>inCol = 0, pos = p, rows = R, v = [], row = filled nc [], colIdx = length ([]::string list),
          calls = C\<rparr>) P"
    by (rule row_prefix [OF csv1 [unfolded ct_def] p okfs ok(3)])
       (use last len ok(2) in \<open>simp_all add: ct_def\<close>)
  then show ?thesis by (simp add: filled_Nil)
qed


lemma yields_mono:
  assumes "yields f P" "\<And>r. P r \<Longrightarrow> Q r"
  shows "yields f Q"
  using assms unfolding yields_def by blast

lemma concat_pushed: "concat (pushedCalls C R r) @ pushedRows R r = concat C @ R @ [r]"
  by (simp add: pushedCalls_def pushedRows_def)

lemma tableText_Cons: "tableText c rd (r # rs) = rowText c r @ rd @ tableText c rd rs"
  by (simp add: tableText_def)

lemma tableText_Nil: "tableText c rd [] = []"
  by (simp add: tableText_def)

text \<open>The whole table, without a row limit. After the rows of the table the text either ends,
  and the last row emitted is the fresh row buffer with the empty string in slot \<open>0\<close>, or goes
  on with one more row that has no row delimiter after it.\<close>

lemma table_all:
  assumes "csv = pre @ tableText c rd rs @ tail" "p = int (length pre)"
    and "tableOK nc c rd rs" "0 < nc" "delimsOK c rd"
    and "(tail = [] \<and> final = arr_set (Array nc) 0 []) \<or>
         (\<exists>rl. tail = rowText c rl \<and> rowOK nc c rd rl \<and> final = rowValues rl)"
  shows "yields (\<lambda>n. loop csv [c] rd nc None False n
           \<lparr>inCol = 0, pos = p, rows = R, v = [], row = Array nc, colIdx = 0, calls = C\<rparr>)
           (\<lambda>res. \<exists>cs. res = Inr cs \<and> concat cs = concat C @ R @ map rowValues rs @ [final])"
  using assms
proof (induction rs arbitrary: pre p R C)
  case Nil
  note csv = Nil.prems(1) and p = Nil.prems(2) and ok = Nil.prems(4,5) and tail = Nil.prems(6)
  from tail show ?case
  proof (elim disjE conjE exE)
    assume "tail = []" "final = arr_set (Array nc) 0 []"
    then show ?thesis
      using csv p by (intro yields_exit) (simp_all add: tableText_Nil)
  next
    fix rl assume rl: "tail = rowText c rl" "rowOK nc c rd rl" "final = rowValues rl"
    have csv': "csv = pre @ rowText c rl" using csv rl by (simp add: tableText_Nil)
    show ?thesis
      by (rule row_end [OF csv' p rl(2) ok]) (simp add: rl)
  qed
next
  case (Cons r rs)
  note csv = Cons.prems(1) and p = Cons.prems(2) and tab = Cons.prems(3)
    and ok = Cons.prems(4,5) and tail = Cons.prems(6)
  have okr: "rowOK nc c rd r" and okrs: "tableOK nc c rd rs"
    using tab by (simp_all add: tableOK_def)
  have csv1: "csv = pre @ rowText c r @ rd @ (tableText c rd rs @ tail)"
    using csv by (simp add: tableText_Cons)
  have csv2: "csv = (pre @ rowText c r @ rd) @ tableText c rd rs @ tail"
    using csv by (simp add: tableText_Cons)
  have p2: "p + int (length (rowText c r)) + int (length rd) = int (length (pre @ rowText c r @ rd))"
    using p by simp
  show ?case
  proof (rule row_rd [OF csv1 p okr ok])
    show "(\<exists>cs. Inr (C @ [R @ [rowValues r]]) = Inr cs \<and>
            concat cs = concat C @ R @ map rowValues (r # rs) @ [final])"
      if "None = Some (int (length R) + 1)"
      using that by simp
    show "yields (\<lambda>n. loop csv [c] rd nc None False n
           \<lparr>inCol = 0, pos = p + int (length (rowText c r)) + int (length rd),
            rows = pushedRows R (rowValues r), v = [], row = Array nc, colIdx = 0,
            calls = pushedCalls C R (rowValues r)\<rparr>)
           (\<lambda>res. \<exists>cs. res = Inr cs \<and> concat cs = concat C @ R @ map rowValues (r # rs) @ [final])"
      by (rule yields_mono [OF Cons.IH [OF csv2 p2 okrs ok tail]])
         (use concat_pushed [of C R "rowValues r"] in \<open>auto simp flip: append_assoc\<close>)
  qed
qed

text \<open>The first rows of a text, with their number as row limit: whatever follows them.\<close>

lemma table_limit:
  assumes "csv = pre @ tableText c rd rs @ rest" "p = int (length pre)"
    and "tableOK nc c rd rs" "0 < nc" "delimsOK c rd"
    and "rs \<noteq> []" "length R + length rs \<le> CHUNK_SIZE"
    and "lm = Some (int (length R + length rs))"
  shows "yields (\<lambda>n. loop csv [c] rd nc lm False n
           \<lparr>inCol = 0, pos = p, rows = R, v = [], row = Array nc, colIdx = 0, calls = C\<rparr>)
           (\<lambda>res. res = Inr (C @ [R @ map rowValues rs]))"
  using assms
proof (induction rs arbitrary: pre p R)
  case Nil
  then show ?case by simp
next
  case (Cons r rs)
  note csv = Cons.prems(1) and p = Cons.prems(2) and tab = Cons.prems(3)
    and ok = Cons.prems(4,5) and len = Cons.prems(7) and lm = Cons.prems(8)
  have okr: "rowOK nc c rd r" and okrs: "tableOK nc c rd rs"
    using tab by (simp_all add: tableOK_def)
  have csv1: "csv = pre @ rowText c r @ rd @ (tableText c rd rs @ rest)"
    using csv by (simp add: tableText_Cons)
  have csv2: "csv = (pre @ rowText c r @ rd) @ tableText c rd rs @ rest"
    using csv by (simp add: tableText_Cons)
  have p2: "p + int (length (rowText c r)) + int (length rd) = int (length (pre @ rowText c r @ rd))"
    using p by simp
  show ?case
  proof (rule row_rd [OF csv1 p okr ok])
    assume "lm = Some (int (length R) + 1)"
    then have "rs = []" using lm by simp
    then show "Inr (C @ [R @ [rowValues r]]) = Inr (C @ [R @ map rowValues (r # rs)])"
      by simp
  next
    assume "lm \<noteq> Some (int (length R) + 1)"
    then have ne: "rs \<noteq> []" using lm by auto
    then have "Suc (length R) \<noteq> CHUNK_SIZE" using len by (cases rs) auto
    then have pr: "pushedRows R (rowValues r) = R @ [rowValues r]"
      "pushedCalls C R (rowValues r) = C"
      by (simp_all add: pushedRows_def pushedCalls_def)
    have "yields (\<lambda>n. loop csv [c] rd nc lm False n
           \<lparr>inCol = 0, pos = p + int (length (rowText c r)) + int (length rd),
            rows = R @ [rowValues r], v = [], row = Array nc, colIdx = 0, calls = C\<rparr>)
           (\<lambda>res. res = Inr (C @ [(R @ [rowValues r]) @ map rowValues rs]))"
      by (rule Cons.IH [OF csv2 p2 okrs ok ne]) (use len lm in simp_all)
    then show "yields (\<lambda>n. loop csv [c] rd nc lm False n
           \<lparr>inCol = 0, pos = p + int (length (rowText c r)) + int (length rd),
            rows = pushedRows R (rowValues r), v = [], row = Array nc, colIdx = 0,
            calls = pushedCalls C R (rowValues r)\<rparr>)
           (\<lambda>res. res = Inr (C @ [R @ map rowValues (r # rs)]))"
      by (simp add: pr)
  qed
qed

section \<open>The quote-free path of parse (src/uDSV.js) on well-formed text\<close>

lemma yields_Suc:
  assumes "\<And>n. f (Suc n) = g n" "yields g P"
  shows "yields f P"
proof -
  from assms(2) obtain r k where r: "P r" "\<forall>n. g (k + n) = Some r"
    unfolding yields_def by blast
  have "\<forall>n. f (Suc k + n) = Some r" using assms(1) r(2) by simp
  with r(1) show ?thesis unfolding yields_def by blast
qed

lemma yields_now:
  assumes "\<And>n. f (Suc n) = Some r" "P r"
  shows "yields f P"
proof -
  have "\<forall>n. f (Suc 0 + n) = Some r" using assms(1) by simp
  with assms(2) show ?thesis unfolding yields_def by blast
qed

lemma split_on_absent: "c \<notin> set s \<Longrightarrow> split_on [c] cur s = [cur @ s]"
  by (induction s arbitrary: cur) (auto simp: prefix_Cons)

lemma split_on_here:
  "c \<notin> set s \<Longrightarrow> split_on [c] cur (s @ c # rest) = (cur @ s) # split_on [c] [] rest"
  by (induction s arbitrary: cur) (auto simp: prefix_Cons)

lemma plain_text: "isPlain f \<Longrightarrow> fieldText f = fieldValue f"
  by (cases f) simp_all

lemma plain_no_c: "isPlain f \<Longrightarrow> fieldOK c rd f \<Longrightarrow> c \<notin> set (fieldText f)"
  by (cases f) simp_all

lemma plain_no_rd: "isPlain f \<Longrightarrow> fieldOK c rd f \<Longrightarrow> set (fieldText f) \<inter> set rd = {}"
  by (cases f) simp_all

lemma split_on_row:
  "r \<noteq> [] \<Longrightarrow> list_all isPlain r \<Longrightarrow> list_all (fieldOK c rd) r \<Longrightarrow>
   split_on [c] cur (rowText c r) = (cur @ fieldValue (hd r)) # map fieldValue (tl r)"
proof (induction c r arbitrary: cur rule: rowText.induct)
  case (1 c)
  then show ?case by simp
next
  case (2 c f)
  then show ?case
    using split_on_absent [OF plain_no_c, of f c rd cur] by (simp add: plain_text)
next
  case (3 c f g fs)
  have "split_on [c] cur (fieldText f @ c # rowText c (g # fs))
          = (cur @ fieldText f) # split_on [c] [] (rowText c (g # fs))"
    using 3(3,4) by (intro split_on_here plain_no_c [of f c rd]) simp_all
  then show ?case using 3 by (simp add: plain_text)
qed

lemma split_str_row:
  assumes "plainRow c rd r"
  shows "map Some (split_str (rowText c r) (Some [c])) = rowValues r"
proof -
  from assms have r: "r \<noteq> []" "list_all isPlain r" "list_all (fieldOK c rd) r"
    by (simp_all add: plainRow_def)
  have "split_on [c] [] (rowText c r) = map fieldValue r"
    using split_on_row [OF r, of "[]"] r(1) by (cases r) simp_all
  then show ?thesis by (simp add: split_str_def rowValues_def)
qed

lemma rowText_no_rd:
  "list_all isPlain r \<Longrightarrow> list_all (fieldOK c rd) r \<Longrightarrow> c \<notin> set rd \<Longrightarrow>
   set (rowText c r) \<inter> set rd = {}"
proof (induction c r rule: rowText.induct)
  case (1 c)
  then show ?case by simp
next
  case (2 c f)
  then show ?case using plain_no_rd [of f c rd] by simp
next
  case (3 c f g fs)
  then show ?case using plain_no_rd [of f c rd] by (simp add: Int_Un_distrib2)
qed

lemma join_row: "list_all isPlain r \<Longrightarrow> join_str [c] (rowValues r) = rowText c r"
  by (induction c r rule: rowText.induct) (simp_all add: rowValues_def plain_text)

lemma fast_row:
  assumes csv: "csv = pre @ rowText c r @ rd @ rest" and p: "p = int (length pre)"
    and ok: "plainRow c rd r" "delimsOK c rd"
  shows "fastLoop csv (Some [c]) rd lm (Suc n) p R C =
           (if lm = Some (int (length R) + 1) then Some (C @ [R @ [rowValues r]])
            else fastLoop csv (Some [c]) rd lm n
                   (p + int (length (rowText c r)) + int (length rd))
                   (pushedRows R (rowValues r)) (pushedCalls C R (rowValues r)))"
proof -
  have rdne: "rd \<noteq> []" and cn: "c \<notin> set rd" using ok(2) by (simp_all add: delimsOK_def)
  have "set (rowText c r) \<inter> set rd = {}"
    using ok(1) cn by (intro rowText_no_rd) (simp_all add: plainRow_def)
  then have "hd rd \<notin> set (rowText c r)" using rdne hd_in_set [OF rdne] by auto
  then have idx: "indexOf csv rd p = p + int (length (rowText c r))"
    using indexOf_at [OF p, of "rowText c r @ rd @ rest" rd] csv rdne
    by (simp add: find_sub_here)
  have sl: "slice csv p (p + int (length (rowText c r))) = rowText c r"
    using slice_at [OF p, of "rowText c r @ rd @ rest" "length (rowText c r)"] csv by simp
  have pos: "p + int (length (rowText c r)) > - 1" using p by simp
  show ?thesis
    using pos
    by (simp add: idx sl split_str_row [OF ok(1)] Let_def pushedRows_def pushedCalls_def)
qed

lemma fast_end:
  assumes csv: "csv = pre @ tail" and p: "p = int (length pre)"
    and tail: "find_sub rd tail = None"
  shows "fastLoop csv cd rd lm (Suc n) p R C = Some (if length R > 0 then C @ [R] else C)"
  using indexOf_at [OF p, of tail rd] csv tail by (simp add: Let_def)

lemma fast_table_all:
  assumes "csv = pre @ tableText c rd rs @ tail" "p = int (length pre)"
    and "plainTable c rd rs" "delimsOK c rd" "find_sub rd tail = None"
  shows "yields (\<lambda>n. fastLoop csv (Some [c]) rd None n p R C)
           (\<lambda>cs. concat cs = concat C @ R @ map rowValues rs)"
  using assms
proof (induction rs arbitrary: pre p R C)
  case Nil
  then have "\<And>n. fastLoop csv (Some [c]) rd None (Suc n) p R C
                  = Some (if length R > 0 then C @ [R] else C)"
    by (intro fast_end [of csv pre tail]) (simp_all add: tableText_def)
  then show ?case by (rule yields_now) simp
next
  case (Cons r rs)
  note csv = Cons.prems(1) and p = Cons.prems(2) and tab = Cons.prems(3)
    and ok = Cons.prems(4) and tail = Cons.prems(5)
  have okr: "plainRow c rd r" and okrs: "plainTable c rd rs"
    using tab by (simp_all add: plainTable_def)
  have csv1: "csv = pre @ rowText c r @ rd @ (tableText c rd rs @ tail)"
    using csv by (simp add: tableText_def)
  have csv2: "csv = (pre @ rowText c r @ rd) @ tableText c rd rs @ tail"
    using csv by (simp add: tableText_def)
  have p2: "p + int (length (rowText c r)) + int (length rd) = int (length (pre @ rowText c r @ rd))"
    using p by simp
  have step: "\<And>n. fastLoop csv (Some [c]) rd None (Suc n) p R C
           = fastLoop csv (Some [c]) rd None n
                   (p + int (length (rowText c r)) + int (length rd))
                   (pushedRows R (rowValues r)) (pushedCalls C R (rowValues r))"
    using fast_row [OF csv1 p okr ok, of None] by simp
  have "yields (\<lambda>n. fastLoop csv (Some [c]) rd None n
                   (p + int (length (rowText c r)) + int (length rd))
                   (pushedRows R (rowValues r)) (pushedCalls C R (rowValues r)))
           (\<lambda>cs. concat cs = concat (pushedCalls C R (rowValues r)) @ pushedRows R (rowValues r)
                    @ map rowValues rs)"
    by (rule Cons.IH [OF csv2 p2 okrs ok tail])
  then have "yields (\<lambda>n. fastLoop csv (Some [c]) rd None n
                   (p + int (length (rowText c r)) + int (length rd))
                   (pushedRows R (rowValues r)) (pushedCalls C R (rowValues r)))
           (\<lambda>cs. concat cs = concat C @ R @ map rowValues (r # rs))"
    by (rule yields_mono) (simp add: pushedCalls_def pushedRows_def split: if_splits)
  then show ?case
    by (rule yields_Suc [where g = "\<lambda>n. fastLoop csv (Some [c]) rd None n
                   (p + int (length (rowText c r)) + int (length rd))
                   (pushedRows R (rowValues r)) (pushedCalls C R (rowValues r))", rotated])
       (rule step)
qed

lemma fast_table_limit:
  assumes "csv = pre @ tableText c rd rs @ rest" "p = int (length pre)"
    and "plainTable c rd rs" "delimsOK c rd"
    and "rs \<noteq> []" "length R + length rs \<le> CHUNK_SIZE"
    and "lm = Some (int (length R + length rs))"
  shows "yields (\<lambda>n. fastLoop csv (Some [c]) rd lm n p R C)
           (\<lambda>cs. cs = C @ [R @ map rowValues rs])"
  using assms
proof (induction rs arbitrary: pre p R)
  case Nil
  then show ?case by simp
next
  case (Cons r rs)
  note csv = Cons.prems(1) and p = Cons.prems(2) and tab = Cons.prems(3)
    and ok = Cons.prems(4) and len = Cons.prems(6) and lm = Cons.prems(7)
  have okr: "plainRow c rd r" and okrs: "plainTable c rd rs"
    using tab by (simp_all add: plainTable_def)
  have csv1: "csv = pre @ rowText c r @ rd @ (tableText c rd rs @ rest)"
    using csv by (simp add: tableText_def)
  have csv2: "csv = (pre @ rowText c r @ rd) @ tableText c rd rs @ rest"
    using csv by (simp add: tableText_def)
  have p2: "p + int (length (rowText c r)) + int (length rd) = int (length (pre @ rowText c r @ rd))"
    using p by simp
  show ?case
  proof (cases "rs = []")
    case True
    then have "lm = Some (int (length R) + 1)" using lm by simp
    then have "\<And>n. fastLoop csv (Some [c]) rd lm (Suc n) p R C = Some (C @ [R @ [rowValues r]])"
      using fast_row [OF csv1 p okr ok, of lm] by simp
    then show ?thesis by (rule yields_now) (simp add: True)
  next
    case False
    then have nl: "lm \<noteq> Some (int (length R) + 1)" using lm by auto
    have "Suc (length R) \<noteq> CHUNK_SIZE" using len False by (cases rs) auto
    then have pr: "pushedRows R (rowValues r) = R @ [rowValues r]"
      "pushedCalls C R (rowValues r) = C"
      by (simp_all add: pushedRows_def pushedCalls_def)
    have step: "\<And>n. fastLoop csv (Some [c]) rd lm (Suc n) p R C
           = fastLoop csv (Some [c]) rd lm n
                   (p + int (length (rowText c r)) + int (length rd)) (R @ [rowValues r]) C"
      using fast_row [OF csv1 p okr ok, of lm] nl pr by simp
    have "yields (\<lambda>n. fastLoop csv (Some [c]) rd lm n
                   (p + int (length (rowText c r)) + int (length rd)) (R @ [rowValues r]) C)
           (\<lambda>cs. cs = C @ [(R @ [rowValues r]) @ map rowValues rs])"
      by (rule Cons.IH [OF csv2 p2 okrs ok False]) (use len lm in simp_all)
    then have "yields (\<lambda>n. fastLoop csv (Some [c]) rd lm n
                   (p + int (length (rowText c r)) + int (length rd)) (R @ [rowValues r]) C)
           (\<lambda>cs. cs = C @ [R @ map rowValues (r # rs)])"
      by simp
    then show ?thesis
      by (rule yields_Suc [where g = "\<lambda>n. fastLoop csv (Some [c]) rd lm n
                   (p + int (length (rowText c r)) + int (length rd)) (R @ [rowValues r]) C",
               rotated])
         (rule step)
  qed
qed

section \<open>parse (src/uDSV.js) on the text of a table\<close>

lemma parse_quoting:
  assumes "quoting sch" "delimited sch c rd nc"
  shows "parse fuel csv sch lm None =
           loop csv [c] rd nc lm False fuel
             \<lparr>inCol = 0, pos = 0, rows = [], v = [], row = Array nc, colIdx = 0, calls = []\<rparr>"
  using assms by (auto simp add: parse_def quoting_def delimited_def Let_def)

lemma parse_fast:
  assumes "\<not> quoting sch" "delimited sch c rd nc"
  shows "parse fuel csv sch lm mc = map_option Inr (fastLoop csv (Some [c]) rd lm fuel 0 [] [])"
  using assms by (auto simp add: parse_def quoting_def delimited_def Let_def)

lemma yields_Inr:
  assumes "yields f Q"
  shows "\<exists>cs. (\<exists>k. \<forall>n. map_option Inr (f (k + n)) = Some (Inr cs)) \<and> Q cs"
  using assms unfolding yields_def by auto

lemma yields_result:
  assumes "yields f (\<lambda>res. \<exists>cs. res = Inr cs \<and> Q cs)"
  shows "\<exists>cs. (\<exists>k. \<forall>n. f (k + n) = Some (Inr cs)) \<and> Q cs"
  using assms unfolding yields_def by auto

lemma rejoin_rows:
  assumes "plainTable c rd rs"
  shows "rejoin c rd (map rowValues rs) = join_str rd (map (\<lambda>r. Some (rowText c r)) rs)"
proof -
  have "map (\<lambda>r. Some (join_str [c] r)) (map rowValues rs) = map (\<lambda>r. Some (rowText c r)) rs"
    using assms by (induction rs) (simp_all add: plainTable_def plainRow_def join_row)
  then show ?thesis by (simp only: rejoin_def)
qed

lemma join_terminated:
  "rs \<noteq> [] \<Longrightarrow> join_str rd (map (\<lambda>r. Some (rowText c r)) rs) @ rd = tableText c rd rs"
proof (induction rs)
  case Nil
  then show ?case by simp
next
  case (Cons r rs)
  then show ?case by (cases rs) (simp_all add: tableText_def)
qed

lemma join_unterminated:
  "join_str rd (map (\<lambda>r. Some (rowText c r)) (rs @ [rl])) = tableText c rd rs @ rowText c rl"
proof (induction rs)
  case Nil
  then show ?case by (simp add: tableText_def)
next
  case (Cons r rs)
  then show ?case by (cases rs) (simp_all add: tableText_def)
qed

lemma yields_exactly:
  assumes "yields f (\<lambda>res. res = x)"
  shows "\<exists>k. \<forall>n. f (k + n) = Some x"
  using assms unfolding yields_def by auto

lemma yields_map_exactly:
  assumes "yields f (\<lambda>res. res = x)"
  shows "\<exists>k. \<forall>n. map_option Inr (f (k + n)) = Some (Inr x)"
  using assms unfolding yields_def by auto

lemma fast_limit_beyond_chunk:
  "int CHUNK_SIZE < k \<Longrightarrow> length R < CHUNK_SIZE \<Longrightarrow>
   fastLoop csv cd rd (Some k) n p R C = fastLoop csv cd rd None n p R C"
proof (induction n arbitrary: p R C)
  case 0
  show ?case by simp
next
  case (Suc n)
  have "CHUNK_SIZE \<noteq> 0" by (simp add: CHUNK_SIZE_def)
  then show ?case
    using Suc.prems Suc.IH [of "[]"] Suc.IH [of "R @ [x]" for x]
    by (auto simp add: Let_def)
qed

lemma parse_unescapes_quotes_aux:
  assumes "delimsOK c rd" "0 < nc" "tableOK nc c rd rs" "rowOK nc c rd rl"
    and "quoting sch" "delimited sch c rd nc"
  shows "\<exists>cs. (\<exists>k. \<forall>n. parse (k + n) (tableText c rd rs @ rowText c rl) sch None None
                        = Some (Inr cs))
              \<and> concat cs = map rowValues (rs @ [rl])"
proof -
  have "yields (\<lambda>n. loop (tableText c rd rs @ rowText c rl) [c] rd nc None False n
           \<lparr>inCol = 0, pos = 0, rows = [], v = [], row = Array nc, colIdx = 0, calls = []\<rparr>)
           (\<lambda>res. \<exists>cs. res = Inr cs \<and> concat cs = concat [] @ [] @ map rowValues rs @ [rowValues rl])"
    by (rule table_all [where pre = "[]" and tail = "rowText c rl"])
       (use assms in auto)
  then show ?thesis
    using yields_result [of "\<lambda>n. parse n (tableText c rd rs @ rowText c rl) sch None None"
        "\<lambda>cs. concat cs = map rowValues (rs @ [rl])"]
    by (simp add: parse_quoting [OF assms(5,6)])
qed

text \<open>A row limit from \<open>1\<close> to \<open>CHUNK_SIZE\<close> is met: on a text that starts with as many
  well-formed rows, each followed by the row delimiter, \<open>parse\<close> returns after one invocation
  of the callback, with exactly these rows, whatever text follows them (no forced column
  count).\<close>

lemma parse_limit_within_chunk:
  assumes "delimsOK c rd" "delimited sch c rd nc" "rs \<noteq> []" "length rs \<le> CHUNK_SIZE"
    and "(quoting sch \<and> 0 < nc \<and> tableOK nc c rd rs) \<or> (\<not> quoting sch \<and> plainTable c rd rs)"
  shows "\<exists>k. \<forall>n. parse (k + n) (tableText c rd rs @ rest) sch (Some (int (length rs))) None
                   = Some (Inr [map rowValues rs])"
  using assms(5)
proof (elim disjE conjE)
  assume a: "quoting sch" "0 < nc" "tableOK nc c rd rs"
  have "yields (\<lambda>n. loop (tableText c rd rs @ rest) [c] rd nc (Some (int (length rs))) False n
           \<lparr>inCol = 0, pos = 0, rows = [], v = [], row = Array nc, colIdx = 0, calls = []\<rparr>)
           (\<lambda>res. res = Inr ([] @ [[] @ map rowValues rs]))"
    by (rule table_limit [where pre = "[]"]) (use assms a in auto)
  then show ?thesis
    using yields_exactly by (fastforce simp add: parse_quoting [OF a(1) assms(2)])
next
  assume a: "\<not> quoting sch" "plainTable c rd rs"
  have "yields (\<lambda>n. fastLoop (tableText c rd rs @ rest) (Some [c]) rd (Some (int (length rs))) n
                  0 [] [])
           (\<lambda>cs. cs = [] @ [[] @ map rowValues rs])"
    by (rule fast_table_limit [where pre = "[]"]) (use assms a in auto)
  then show ?thesis
    using yields_map_exactly by (fastforce simp add: parse_fast [OF a(1) assms(2)])
qed

section \<open>The chunk accounting of parse (dist/uDSV.cjs.js)\<close>

lemma chunked_push:
  assumes "chunked C s" "0 < C"
  shows "\<exists>t. pushMacro_cjs rd nc C None c s = Next t \<and> chunked C t"
  using assms by (auto simp add: pushMacro_cjs_def chunked_def Let_def)

lemma chunked_unstarted:
  assumes "chunked C s" "0 < C"
  shows "\<exists>c' t. unstarted_cjs csv cd rd nc C None s = Next (c', t) \<and> chunked C t"
proof -
  obtain t where t: "pushMacro_cjs rd nc C None (charCodeAt csv (pos s)) s = Next t" "chunked C t"
    using chunked_push [OF assms] by blast
  show ?thesis
    using assms(1) t by (auto simp add: unstarted_cjs_def Let_def chunked_def)
qed

lemma chunked_quoted:
  "quoted_cjs csv n c s = Some t \<Longrightarrow> chunked C s \<Longrightarrow> chunked C t"
proof (induction n arbitrary: c s)
  case 0
  then show ?case by simp
next
  case (Suc n)
  from Suc.prems show ?case
    by (auto simp add: Let_def chunked_def split: if_splits dest!: Suc.IH)
qed

lemma chunked_scan:
  "scanUnquoted csv cd rd nc pr s = Inr t \<Longrightarrow> chunked C s \<Longrightarrow> chunked C t"
  by (auto simp add: scanUnquoted_def Let_def chunked_def split: if_splits option.splits)

lemma chunked_unquoted:
  assumes "chunked C s" "0 < C"
  shows "(\<exists>e. unquoted_cjs csv cd rd nc C None pr c s = Inl e) \<or>
         (\<exists>t. unquoted_cjs csv cd rd nc C None pr c s = Inr (Next t) \<and> chunked C t)"
proof -
  obtain t where t: "pushMacro_cjs rd nc C None c s = Next t" "chunked C t"
    using chunked_push [OF assms] by blast
  have *: "chunked C (t\<lparr>inCol := 0\<rparr>)" using t(2) by (simp add: chunked_def)
  show ?thesis
  proof (cases "scanUnquoted csv cd rd nc pr s")
    case (Inl e)
    then show ?thesis using t * by (simp add: unquoted_cjs_def)
  next
    case (Inr u)
    then show ?thesis
      using t * chunked_scan [OF Inr assms(1)] by (simp add: unquoted_cjs_def)
  qed
qed

lemma chunked_body:
  assumes "chunked C s" "0 < C"
  shows "body_cjs csv cd rd nc C None pr n s = None \<or>
         (\<exists>e. body_cjs csv cd rd nc C None pr n s = Some (Inl e)) \<or>
         (\<exists>t. body_cjs csv cd rd nc C None pr n s = Some (Inr (Next t)) \<and> chunked C t)"
proof -
  obtain c' t where t: "unstarted_cjs csv cd rd nc C None s = Next (c', t)" "chunked C t"
    using chunked_unstarted [OF assms] by blast
  show ?thesis
    using t chunked_unquoted [OF t(2) assms(2), of csv cd rd nc pr c']
      chunked_quoted [of csv n c' t _ C]
    by (auto simp add: body_cjs_def split: option.splits)
qed

lemma chunks_ok_snoc:
  assumes "map snd cs = [0..<length cs]" "list_all (\<lambda>ch. int (length (fst ch)) = C) cs"
    and "1 \<le> length r" "int (length r) \<le> C"
  shows "chunks_ok C (cs @ [(r, length cs)])"
proof -
  have "1 \<le> length (fst ch) \<and> int (length (fst ch)) \<le> C" if "ch \<in> set cs" for ch
  proof -
    have "int (length (fst ch)) = C" using assms(2) that by (simp add: list_all_iff)
    then show ?thesis using assms(3,4) by linarith
  qed
  then show ?thesis
    using assms by (simp add: chunks_ok_def list_all_iff)
qed

lemma chunks_ok_full:
  assumes "map snd cs = [0..<length cs]" "list_all (\<lambda>ch. int (length (fst ch)) = C) cs"
    and "0 < C"
  shows "chunks_ok C cs"
proof -
  have "1 \<le> length (fst ch) \<and> int (length (fst ch)) \<le> C" if "ch \<in> set cs" for ch
  proof -
    have "int (length (fst ch)) = C" using assms(2) that by (simp add: list_all_iff)
    then show ?thesis using assms(3) by linarith
  qed
  moreover have "int (length (fst ch)) = C" if "ch \<in> set (butlast cs)" for ch
    using assms(2) in_set_butlastD [OF that] by (auto simp add: list_all_iff)
  ultimately show ?thesis
    using assms(1) by (simp add: chunks_ok_def list_all_iff)
qed

lemma chunked_loop:
  assumes "loop_cjs csv cd rd nc C None pr n s = Some (Inr cs)" "chunked C s" "0 < C"
  shows "chunks_ok C cs"
  using assms
proof (induction n arbitrary: s)
  case 0
  then show ?case by simp
next
  case (Suc n)
  show ?case
  proof (cases "pos s \<le> int (length csv) - 1")
    case True
    from chunked_body [OF Suc.prems(2,3), of csv cd rd nc pr n] Suc.prems(1) True
    obtain t where "body_cjs csv cd rd nc C None pr n s = Some (Inr (Next t))" "chunked C t"
      by auto
    then show ?thesis using Suc.IH [of t] Suc.prems(1,3) True by simp
  next
    case False
    then have cs: "cs = calls s @ [(rows s @ [arr_set (row s) (colIdx s) (v s)], numChunks s)]"
      using Suc.prems(1) by simp
    show ?thesis
      using Suc.prems(2,3)
      by (auto simp add: cs chunks_ok_def chunked_def list_all_iff)
  qed
qed

lemma chunked_fastLoop:
  assumes "fastLoop_cjs csv cd rd C None n p rs k cs = Some res" "0 < C"
    and "k = length cs" "map snd cs = [0..<length cs]"
    and "list_all (\<lambda>ch. int (length (fst ch)) = C) cs" "int (length rs) < C"
  shows "chunks_ok C res"
  using assms
proof (induction n arbitrary: p rs k cs)
  case 0
  then show ?case by simp
next
  case (Suc n)
  show ?case
  proof (cases "indexOf csv rd p > - 1")
    case True
    define rs1 where "rs1 = rs @ [map Some (split_str (slice csv p (indexOf csv rd p)) cd)]"
    show ?thesis
    proof (cases "int (length rs1) = C")
      case full: True
      have "fastLoop_cjs csv cd rd C None n (indexOf csv rd p + int (length rd)) [] (k + 1)
              (cs @ [(rs1, k)]) = Some res"
        using Suc.prems(1) True full by (simp add: Let_def rs1_def)
      then show ?thesis
        by (rule Suc.IH) (use Suc.prems full in \<open>simp_all add: list_all_iff\<close>)
    next
      case False
      have "fastLoop_cjs csv cd rd C None n (indexOf csv rd p + int (length rd)) rs1 k cs
              = Some res"
        using Suc.prems(1) True False by (simp add: Let_def rs1_def)
      then show ?thesis
        by (rule Suc.IH) (use Suc.prems False in \<open>simp_all add: rs1_def\<close>)
    qed
  next
    case False
    then have res: "res = (if length rs > 0 then cs @ [(rs, k)] else cs)"
      using Suc.prems(1) by (simp add: Let_def)
    show ?thesis
    proof (cases "rs = []")
      case True
      then show ?thesis
        using res chunks_ok_full [OF Suc.prems(4,5,2)] by simp
    next
      case False
      then have "1 \<le> length rs" by (cases rs) simp_all
      then show ?thesis
        using res False chunks_ok_snoc [OF Suc.prems(4,5), of rs] Suc.prems(3,6) by simp
    qed
  qed
qed

lemma length_full_chunks:
  "list_all (\<lambda>ch. int (length (fst ch)) = C) cs \<Longrightarrow>
   int (length (concat (map fst cs))) = int (length cs) * C"
  by (induction cs) (simp_all add: algebra_simps)

lemma chunks_ok_count:
  assumes "chunks_ok C cs" "0 < C"
  shows "\<lceil>real (length (concat (map fst cs))) / real_of_int C\<rceil> = int (length cs)"
proof (cases cs rule: rev_cases)
  case Nil
  then show ?thesis by simp
next
  case (snoc cs0 ch)
  have full: "int (length (concat (map fst cs0))) = int (length cs0) * C"
    using assms(1) snoc by (intro length_full_chunks) (simp add: chunks_ok_def)
  have l: "1 \<le> length (fst ch)" "int (length (fst ch)) \<le> C"
    using assms(1) snoc by (simp_all add: chunks_ok_def)
  define n where "n = int (length cs0)"
  define l where "l = int (length (fst ch))"
  have R: "real (length (concat (map fst cs))) = real_of_int (n * C + l)"
    using full snoc by (simp add: n_def l_def) (metis of_int_of_nat_eq of_int_mult)
  have lb: "1 \<le> l" "l \<le> C" using l by (simp_all add: l_def)
  have "\<lceil>real_of_int (n * C + l) / real_of_int C\<rceil> = n + 1"
  proof (rule ceiling_unique)
    have "real_of_int n * real_of_int C < real_of_int (n * C + l)" using lb by simp
    then show "real_of_int (n + 1) - 1 < real_of_int (n * C + l) / real_of_int C"
      using assms(2) by (simp add: pos_less_divide_eq)
    have "real_of_int (n * C + l) \<le> real_of_int (n + 1) * real_of_int C"
      using lb by (simp add: algebra_simps)
    then show "real_of_int (n * C + l) / real_of_int C \<le> real_of_int (n + 1)"
      using assms(2) by (simp add: pos_divide_le_eq)
  qed
  then show ?thesis using R snoc by (simp add: n_def)
qed

lemma sameScan_push:
  assumes "sameScan s t"
  shows "\<exists>s1 t1. pushMacro_cjs rd nc C None c s = Next s1 \<and>
                 pushMacro_cjs rd nc C' None c t = Next t1 \<and> sameScan s1 t1"
  using assms by (auto simp add: pushMacro_cjs_def sameScan_def Let_def)

lemma sameScan_unstarted:
  assumes "sameScan s t"
  shows "\<exists>c1 s1 t1. unstarted_cjs csv cd rd nc C None s = Next (c1, s1) \<and>
                    unstarted_cjs csv cd rd nc C' None t = Next (c1, t1) \<and> sameScan s1 t1"
proof -
  obtain s1 t1 where p: "pushMacro_cjs rd nc C None (charCodeAt csv (pos s)) s = Next s1"
      "pushMacro_cjs rd nc C' None (charCodeAt csv (pos s)) t = Next t1" "sameScan s1 t1"
    using sameScan_push [OF assms] by blast
  have eq: "pos t = pos s" "inCol t = inCol s" "pos t1 = pos s1"
    using assms p(3) by (simp_all add: sameScan_def)
  show ?thesis
    using assms p by (auto simp add: unstarted_cjs_def Let_def eq) (auto simp add: sameScan_def)
qed

lemma sameScan_quoted:
  assumes "sameScan s t"
  shows "rel_option sameScan (quoted_cjs csv n c s) (quoted_cjs csv n c t)"
  using assms
proof (induction n arbitrary: c s t)
  case 0
  then show ?case by simp
next
  case (Suc n)
  have eq: "pos t = pos s" "v t = v s" using Suc.prems by (simp_all add: sameScan_def)
  have a: "sameScan (s\<lparr>v := x, pos := q\<rparr>) (t\<lparr>v := x, pos := q\<rparr>)" for x q
    using Suc.prems by (simp add: sameScan_def)
  have b: "sameScan (s\<lparr>inCol := 0, pos := q\<rparr>) (t\<lparr>inCol := 0, pos := q\<rparr>)" for q
    using Suc.prems by (simp add: sameScan_def)
  show ?case
    using Suc.IH [OF a] b by (simp add: Let_def eq)
qed

lemma sameScan_scan:
  assumes "sameScan s t"
  shows "rel_sum (=) sameScan (scanUnquoted csv cd rd nc pr s) (scanUnquoted csv cd rd nc pr t)"
proof -
  have eq: "pos t = pos s" "v t = v s" "colIdx t = colIdx s"
    using assms by (simp_all add: sameScan_def)
  have a: "sameScan (s\<lparr>v := x, pos := q\<rparr>) (t\<lparr>v := x, pos := q\<rparr>)" for x q
    using assms by (simp add: sameScan_def)
  show ?thesis
    using a by (simp add: scanUnquoted_def Let_def eq split: option.splits)
qed

lemma sameScan_unquoted:
  assumes "sameScan s t"
  shows "rel_sum (=) bothNext
           (unquoted_cjs csv cd rd nc C None pr c s) (unquoted_cjs csv cd rd nc C' None pr c t)"
proof -
  obtain s1 t1 where p: "pushMacro_cjs rd nc C None c s = Next s1"
      "pushMacro_cjs rd nc C' None c t = Next t1" "sameScan s1 t1"
    using sameScan_push [OF assms] by blast
  have *: "sameScan (s1\<lparr>inCol := 0\<rparr>) (t1\<lparr>inCol := 0\<rparr>)" using p(3) by (simp add: sameScan_def)
  show ?thesis
    using sameScan_scan [OF assms, of csv cd rd nc pr] p(1,2) *
    by (cases "scanUnquoted csv cd rd nc pr s"; cases "scanUnquoted csv cd rd nc pr t")
       (simp_all add: unquoted_cjs_def bothNext_def)
qed

lemma sameScan_body:
  assumes "sameScan s t"
  shows "rel_option (rel_sum (=) bothNext)
           (body_cjs csv cd rd nc C None pr n s) (body_cjs csv cd rd nc C' None pr n t)"
proof -
  obtain c1 s1 t1 where u: "unstarted_cjs csv cd rd nc C None s = Next (c1, s1)"
      "unstarted_cjs csv cd rd nc C' None t = Next (c1, t1)" "sameScan s1 t1"
    using sameScan_unstarted [OF assms] by blast
  have eq: "inCol t1 = inCol s1" using u(3) by (simp add: sameScan_def)
  show ?thesis
    using sameScan_quoted [OF u(3), of csv n c1] sameScan_unquoted [OF u(3), of csv cd rd nc C pr c1 C']
      u(3)
    by (cases "quoted_cjs csv n c1 s1"; cases "quoted_cjs csv n c1 t1")
       (simp_all add: body_cjs_def u(1,2) eq bothNext_def)
qed

lemma sameScan_loop:
  assumes "sameScan s t"
  shows "rel_option (rel_sum (=) (\<lambda>cs cs'. concat (map fst cs) = concat (map fst cs')))
           (loop_cjs csv cd rd nc C None pr n s) (loop_cjs csv cd rd nc C' None pr n t)"
  using assms
proof (induction n arbitrary: s t)
  case 0
  then show ?case by simp
next
  case (Suc n)
  have eq: "pos t = pos s" "v t = v s" "colIdx t = colIdx s" "row t = row s"
    and cc: "concat (map fst (calls s)) @ rows s = concat (map fst (calls t)) @ rows t"
    using Suc.prems by (simp_all add: sameScan_def)
  show ?case
  proof (cases "pos s \<le> int (length csv) - 1")
    case True
    show ?thesis
      using sameScan_body [OF Suc.prems, of csv cd rd nc C pr n C'] True
      by (cases "body_cjs csv cd rd nc C None pr n s"; cases "body_cjs csv cd rd nc C' None pr n t")
         (auto simp add: eq bothNext_def Suc.IH elim!: rel_sum.cases)
  next
    case False
    then show ?thesis using cc by (simp add: eq)
  qed
qed

lemma sameScan_fastLoop:
  assumes "concat (map fst cs) @ rs = concat (map fst cs') @ rs'"
  shows "rel_option (\<lambda>res res'. concat (map fst res) = concat (map fst res'))
           (fastLoop_cjs csv cd rd C None n p rs k cs)
           (fastLoop_cjs csv cd rd C' None n p rs' k' cs')"
  using assms
proof (induction n arbitrary: p rs k cs rs' k' cs')
  case 0
  then show ?case by simp
next
  case (Suc n)
  show ?case
  proof (cases "indexOf csv rd p > - 1")
    case False
    then show ?thesis using Suc.prems by (auto simp add: Let_def)
  next
    case True
    define x where "x = map Some (split_str (slice csv p (indexOf csv rd p)) cd)"
    define q where "q = indexOf csv rd p + int (length rd)"
    have a: "concat (map fst cs) @ rs @ [x] = concat (map fst cs') @ rs' @ [x]"
      using Suc.prems by (metis append_assoc)
    have l: "fastLoop_cjs csv cd rd C None (Suc n) p rs k cs =
               (if int (length (rs @ [x])) = C
                then fastLoop_cjs csv cd rd C None n q [] (k + 1) (cs @ [(rs @ [x], k)])
                else fastLoop_cjs csv cd rd C None n q (rs @ [x]) k cs)"
      using True by (simp add: Let_def x_def q_def)
    have r: "fastLoop_cjs csv cd rd C' None (Suc n) p rs' k' cs' =
               (if int (length (rs' @ [x])) = C'
                then fastLoop_cjs csv cd rd C' None n q [] (k' + 1) (cs' @ [(rs' @ [x], k')])
                else fastLoop_cjs csv cd rd C' None n q (rs' @ [x]) k' cs')"
      using True by (simp add: Let_def x_def q_def)
    have A: "rel_option (\<lambda>res res'. concat (map fst res) = concat (map fst res'))
               (fastLoop_cjs csv cd rd C None n q [] (k + 1) (cs @ [(rs @ [x], k)]))
               (fastLoop_cjs csv cd rd C' None n q [] (k' + 1) (cs' @ [(rs' @ [x], k')]))"
      by (rule Suc.IH) (use a in simp)
    have B: "rel_option (\<lambda>res res'. concat (map fst res) = concat (map fst res'))
               (fastLoop_cjs csv cd rd C None n q [] (k + 1) (cs @ [(rs @ [x], k)]))
               (fastLoop_cjs csv cd rd C' None n q (rs' @ [x]) k' cs')"
      by (rule Suc.IH) (use a in simp)
    have D: "rel_option (\<lambda>res res'. concat (map fst res) = concat (map fst res'))
               (fastLoop_cjs csv cd rd C None n q (rs @ [x]) k cs)
               (fastLoop_cjs csv cd rd C' None n q [] (k' + 1) (cs' @ [(rs' @ [x], k')]))"
      by (rule Suc.IH) (use a in simp)
    have E: "rel_option (\<lambda>res res'. concat (map fst res) = concat (map fst res'))
               (fastLoop_cjs csv cd rd C None n q (rs @ [x]) k cs)
               (fastLoop_cjs csv cd rd C' None n q (rs' @ [x]) k' cs')"
      by (rule Suc.IH) (use a in simp)
    show ?thesis
      unfolding l r using A B D E by presburger
  qed
qed

lemma fastLoop_cjs_returns:
  assumes "rd \<noteq> []" "0 \<le> p" "p \<le> int (length csv)"
  shows "\<exists>res. fastLoop_cjs csv cd rd C None (Suc (length csv - nat p) + n) p rs k cs = Some res"
  using assms(2,3)
proof (induction "length csv - nat p" arbitrary: p rs k cs n rule: less_induct)
  case less
  show ?case
  proof (cases "indexOf csv rd p > - 1")
    case False
    then show ?thesis by (simp add: Let_def)
  next
    case True
    define q where "q = indexOf csv rd p + int (length rd)"
    have rng: "p \<le> indexOf csv rd p" "q \<le> int (length csv)"
      using indexOf_range [of csv rd p] True less.prems by (auto simp add: q_def)
    have "0 < int (length rd)" using assms(1) by simp
    then have q: "p < q" "0 \<le> q" using rng(1) less.prems(1) unfolding q_def by linarith+
    have lt: "length csv - nat q < length csv - nat p" using q rng(2) less.prems by linarith
    define m where "m = n + (nat q - nat p - 1)"
    have fuel: "length csv - nat p + n = Suc (length csv - nat q) + m"
      using q rng(2) less.prems unfolding m_def by linarith
    obtain res1 where r1: "fastLoop_cjs csv cd rd C None (Suc (length csv - nat q) + m) q
        (rs @ [map Some (split_str (slice csv p (indexOf csv rd p)) cd)]) k cs = Some res1"
      using less.hyps [OF lt q(2) rng(2)] by blast
    obtain res2 where r2: "fastLoop_cjs csv cd rd C None (Suc (length csv - nat q) + m) q
        [] (k + 1) (cs @ [(rs @ [map Some (split_str (slice csv p (indexOf csv rd p)) cd)], k)])
          = Some res2"
      using less.hyps [OF lt q(2) rng(2)] by blast
    show ?thesis
      using True r1 r2 by (simp add: Let_def fuel q_def [symmetric])
  qed
qed

lemma chunked_init:
  "0 < C \<Longrightarrow> chunked C \<lparr>inCol = 0, pos = 0, rows = [], v = [], row = Array nc, colIdx = 0,
                            calls = [], numChunks = 0\<rparr>"
  by (simp add: chunked_def)

lemma sameScan_refl: "sameScan s s"
  by (simp add: sameScan_def)

lemma parse_cjs_chunks_ok:
  assumes "parse_cjs fuel csv sch C None mc = Some (Inr cs)" "0 < C"
  shows "chunks_ok C cs"
proof (cases "schema_quote sch = None")
  case True
  then have "fastLoop_cjs csv (cols_delim sch) (rows_delim sch) C None fuel 0 [] 0 [] = Some cs"
    using assms(1) by (auto simp add: parse_cjs_def Let_def)
  then show ?thesis
    by (rule chunked_fastLoop) (use assms(2) in simp_all)
next
  case False
  then obtain cd where cd: "cols_delim sch = Some cd"
    using assms(1) by (cases "cols_delim sch") (simp_all add: parse_cjs_def Let_def False)
  show ?thesis
    using assms(1) False cd chunked_loop [OF _ chunked_init [OF assms(2)] assms(2)]
    by (simp add: parse_cjs_def Let_def)
qed

lemma parse_cjs_same_rows:
  assumes "parse_cjs fuel csv sch C None mc = Some (Inr cs)"
  shows "\<exists>cs'. parse_cjs fuel csv sch C' None mc = Some (Inr cs') \<and>
               concat (map fst cs') = concat (map fst cs)"
proof (cases "schema_quote sch = None")
  case True
  then have l: "fastLoop_cjs csv (cols_delim sch) (rows_delim sch) C None fuel 0 [] 0 [] = Some cs"
    using assms(1) by (auto simp add: parse_cjs_def Let_def)
  have "rel_option (\<lambda>res res'. concat (map fst res) = concat (map fst res'))
          (fastLoop_cjs csv (cols_delim sch) (rows_delim sch) C None fuel 0 [] 0 [])
          (fastLoop_cjs csv (cols_delim sch) (rows_delim sch) C' None fuel 0 [] 0 [])"
    by (rule sameScan_fastLoop) simp
  then obtain cs' where
    "fastLoop_cjs csv (cols_delim sch) (rows_delim sch) C' None fuel 0 [] 0 [] = Some cs'"
    "concat (map fst cs) = concat (map fst cs')"
    unfolding l by (auto simp add: option_rel_Some1)
  then show ?thesis using True by (auto simp add: parse_cjs_def Let_def)
next
  case False
  then obtain cd where cd: "cols_delim sch = Some cd"
    using assms(1) by (cases "cols_delim sch") (simp_all add: parse_cjs_def Let_def False)
  define nc where "nc = (case mc of None \<Rightarrow> length (cols_names sch)
                          | Some m \<Rightarrow> if m = 0 then length (cols_names sch) else m)"
  define s0 :: cstate where "s0 = \<lparr>inCol = 0, pos = 0, rows = [], v = [], row = Array nc,
                           colIdx = 0, calls = [], numChunks = 0\<rparr>"
  have l: "loop_cjs csv cd (rows_delim sch) nc C None False fuel s0 = Some (Inr cs)"
    using assms(1) False cd by (simp add: parse_cjs_def Let_def nc_def s0_def)
  have "rel_option (rel_sum (=) (\<lambda>cs cs'. concat (map fst cs) = concat (map fst cs')))
          (loop_cjs csv cd (rows_delim sch) nc C None False fuel s0)
          (loop_cjs csv cd (rows_delim sch) nc C' None False fuel s0)"
    by (rule sameScan_loop [OF sameScan_refl])
  then obtain cs' where
    "loop_cjs csv cd (rows_delim sch) nc C' None False fuel s0 = Some (Inr cs')"
    "concat (map fst cs) = concat (map fst cs')"
    unfolding l by (auto simp add: option_rel_Some1 elim!: rel_sum.cases)
  then show ?thesis using False cd by (auto simp add: parse_cjs_def Let_def nc_def s0_def)
qed

text \<open>The chunk accounting of a run that returns, for a chunk size \<open>C\<close> of at least one and no
  chunk limit: with \<open>E\<close> the number of rows handed over in all, the callback was invoked
  \<open>ceil(E / C)\<close> times, with the indices \<open>0, 1, 2, ...\<close>; every chunk but the last has exactly
  \<open>C\<close> rows; and the rows handed over do not depend on the chunk size. This says nothing of
  which rows are handed over.\<close>

lemma parse_cjs_emitted_chunks:
  assumes "0 < C"
  shows "(parse_cjs fuel csv sch C None mc = Some (Inr cs) \<longrightarrow>
            \<lceil>real (length (concat (map fst cs))) / real_of_int C\<rceil> = int (length cs)
          \<and> map snd cs = [0..<length cs]
          \<and> list_all (\<lambda>ch. int (length (fst ch)) = C) (butlast cs)
          \<and> (\<forall>C'. 0 < C' \<longrightarrow>
                (\<exists>cs'. parse_cjs fuel csv sch C' None mc = Some (Inr cs')
                      \<and> concat (map fst cs') = concat (map fst cs))))
       \<and> (schema_quote sch = None \<and> rows_delim sch \<noteq> [] \<longrightarrow>
            (\<exists>cs. parse_cjs (Suc (length csv) + n) csv sch C None mc = Some (Inr cs)))"
proof (intro conjI impI allI)
  assume a: "parse_cjs fuel csv sch C None mc = Some (Inr cs)"
  note ok = parse_cjs_chunks_ok [OF a assms]
  show "\<lceil>real (length (concat (map fst cs))) / real_of_int C\<rceil> = int (length cs)"
    by (rule chunks_ok_count [OF ok assms])
  show "map snd cs = [0..<length cs]" using ok by (simp add: chunks_ok_def)
  show "list_all (\<lambda>ch. int (length (fst ch)) = C) (butlast cs)"
    using ok by (simp add: chunks_ok_def)
  show "\<exists>cs'. parse_cjs fuel csv sch C' None mc = Some (Inr cs')
              \<and> concat (map fst cs') = concat (map fst cs)" for C'
    by (rule parse_cjs_same_rows [OF a])
next
  assume "schema_quote sch = None \<and> rows_delim sch \<noteq> []"
  then show "\<exists>cs. parse_cjs (Suc (length csv) + n) csv sch C None mc = Some (Inr cs)"
    using fastLoop_cjs_returns [of "rows_delim sch" 0 csv "cols_delim sch" C n "[]" 0 "[]"]
    by (auto simp add: parse_cjs_def Let_def)
qed

section \<open>The state machine of parse (dist/uDSV.cjs.js) on well-formed text\<close>

lemma yields_step_cjs:
  assumes "pos s \<le> int (length csv) - 1"
    and "\<And>n. body_cjs csv cd rd nc C lm pr (j + n) s = Some (Inr (Next s1))"
    and "yields (\<lambda>n. loop_cjs csv cd rd nc C lm pr n s1) P"
  shows "yields (\<lambda>n. loop_cjs csv cd rd nc C lm pr n s) P"
proof -
  from assms(3) obtain r k where r: "P r" "\<forall>n. loop_cjs csv cd rd nc C lm pr (k + n) s1 = Some r"
    unfolding yields_def by blast
  have "loop_cjs csv cd rd nc C lm pr (Suc (j + k) + n) s = Some r" for n
  proof -
    have "body_cjs csv cd rd nc C lm pr (j + (k + n)) s = Some (Inr (Next s1))"
      by (rule assms(2))
    moreover have "loop_cjs csv cd rd nc C lm pr (k + (j + n)) s1 = Some r"
      using r(2) by blast
    ultimately show ?thesis
      using assms(1) by (simp add: ac_simps)
  qed
  with r(1) show ?thesis unfolding yields_def by blast
qed

lemma yields_exit_cjs:
  assumes "\<not> pos s \<le> int (length csv) - 1"
    and "P (Inr (calls s @ [(rows s @ [arr_set (row s) (colIdx s) (v s)], numChunks s)]))"
  shows "yields (\<lambda>n. loop_cjs csv cd rd nc C lm pr n s) P"
proof -
  have "\<forall>n. loop_cjs csv cd rd nc C lm pr (Suc 0 + n) s
          = Some (Inr (calls s @ [(rows s @ [arr_set (row s) (colIdx s) (v s)], numChunks s)]))"
    using assms(1) by simp
  with assms(2) show ?thesis unfolding yields_def by blast
qed

lemma body_cjs_scan_col:
  assumes csv: "csv = pre @ s @ c # rest" and p: "p = int (length pre)"
    and ok: "fieldOK c rd (Plain s)" "s \<noteq> []" "delimsOK c rd"
    and k: "int k \<noteq> int nc - 1"
  shows "body_cjs csv [c] rd nc C lm False n
           \<lparr>inCol = 0, pos = p, rows = R, v = x, row = r, colIdx = k, calls = Cs, numChunks = K\<rparr>
         = Some (Inr (Next \<lparr>inCol = 1, pos = p + int (length s), rows = R, v = x @ s, row = r,
                      colIdx = k, calls = Cs, numChunks = K\<rparr>))"
proof -
  obtain y s' where s: "s = y # s'" using ok(2) by (cases s) auto
  have hd: "y \<noteq> CHR 0x22" "y \<noteq> c" "y \<noteq> hd rd" using plain_head [OF ok] s by simp_all
  have rd: "charCodeAt rd 0 = Some (hd rd)" using delimsOK_D [OF ok(3)] by simp
  have ch: "charCodeAt csv p = Some y"
    using charCodeAt_at [OF p, of "s @ c # rest"] csv s by simp
  have "c \<notin> set s" using ok(1) by simp
  then have idx: "indexOf csv [c] p = p + int (length s)"
    using indexOf_at [OF p, of "s @ c # rest" "[c]"] csv by (simp add: find_sub_char)
  have sl: "slice csv p (p + int (length s)) = s"
    using slice_at [OF p, of "s @ c # rest" "length s"] csv by simp
  show ?thesis
    using hd k
    by (simp add: body_cjs_def unstarted_cjs_def unquoted_cjs_def scanUnquoted_def ch rd idx sl
          Let_def)
qed

lemma body_cjs_scan_last_rd:
  assumes csv: "csv = pre @ s @ rd @ rest" and p: "p = int (length pre)"
    and ok: "fieldOK c rd (Plain s)" "s \<noteq> []" "delimsOK c rd"
    and k: "int k = int nc - 1"
  shows "body_cjs csv [c] rd nc C lm False n
           \<lparr>inCol = 0, pos = p, rows = R, v = x, row = r, colIdx = k, calls = Cs, numChunks = K\<rparr>
         = Some (Inr (Next \<lparr>inCol = 1, pos = p + int (length s), rows = R, v = x @ s, row = r,
                      colIdx = k, calls = Cs, numChunks = K\<rparr>))"
proof -
  obtain y s' where s: "s = y # s'" using ok(2) by (cases s) auto
  have hd: "y \<noteq> CHR 0x22" "y \<noteq> c" "y \<noteq> hd rd" using plain_head [OF ok] s by simp_all
  have rdne: "rd \<noteq> []" and rd: "charCodeAt rd 0 = Some (hd rd)"
    using delimsOK_D [OF ok(3)] by simp_all
  have ch: "charCodeAt csv p = Some y"
    using charCodeAt_at [OF p, of "s @ rd @ rest"] csv s by simp
  have "hd rd \<notin> set s" using plain_head [OF ok] by simp
  then have idx: "indexOf csv rd p = p + int (length s)"
    using indexOf_at [OF p, of "s @ rd @ rest" rd] csv rdne by (simp add: find_sub_here)
  have sl: "slice csv p (p + int (length s)) = s"
    using slice_at [OF p, of "s @ rd @ rest" "length s"] csv by simp
  have "p + int (length s) \<noteq> - 1" using p by simp
  then show ?thesis
    using hd k
    by (simp add: body_cjs_def unstarted_cjs_def unquoted_cjs_def scanUnquoted_def ch rd idx sl
          Let_def)
qed

lemma body_cjs_commit_col:
  assumes csv: "csv = pre @ c # rest" and p: "p = int (length pre)"
    and ok: "delimsOK c rd" and ic: "ic = 0 \<or> ic = 1"
  shows "body_cjs csv [c] rd nc C lm pr n
           \<lparr>inCol = ic, pos = p, rows = R, v = x, row = r, colIdx = k, calls = Cs, numChunks = K\<rparr>
         = Some (Inr (Next \<lparr>inCol = 0, pos = p + 1, rows = R, v = [], row = arr_set r k x,
                      colIdx = Suc k, calls = Cs, numChunks = K\<rparr>))"
proof -
  have ne: "c \<noteq> CHR 0x22" "c \<noteq> hd rd" and rd: "charCodeAt rd 0 = Some (hd rd)"
    using delimsOK_D [OF ok] by simp_all
  have ch: "charCodeAt csv p = Some c"
    using charCodeAt_at [OF p, of "c # rest"] csv by simp
  show ?thesis
    using ic ne
    by (auto simp add: body_cjs_def unstarted_cjs_def unquoted_cjs_def pushMacro_cjs_def ch rd
          Let_def)
qed

lemma body_cjs_commit_row:
  assumes csv: "csv = pre @ rd @ rest" and p: "p = int (length pre)"
    and ok: "delimsOK c rd" and ic: "ic = 0 \<or> ic = 1"
  shows "body_cjs csv [c] rd nc C None pr n
           \<lparr>inCol = ic, pos = p, rows = R, v = x, row = r, colIdx = k, calls = Cs, numChunks = K\<rparr>
         = Some (Inr (Next \<lparr>inCol = 0, pos = p + int (length rd),
                            rows = pushedRows_cjs C R (arr_set r k x),
                            v = [], row = Array nc, colIdx = 0,
                            calls = pushedCalls_cjs C Cs K R (arr_set r k x),
                            numChunks = pushedChunks_cjs C K R\<rparr>))"
proof -
  have ne: "hd rd \<noteq> CHR 0x22" "c \<noteq> hd rd" and rdne: "rd \<noteq> []"
    and rd: "charCodeAt rd 0 = Some (hd rd)"
    using delimsOK_D [OF ok] by simp_all
  have ch: "charCodeAt csv p = Some (hd rd)"
    using charCodeAt_at [OF p, of "rd @ rest"] csv rdne by (cases rd) simp_all
  show ?thesis
    using ic ne
    by (auto simp add: body_cjs_def unstarted_cjs_def unquoted_cjs_def pushMacro_cjs_def ch rd
          Let_def pushedRows_cjs_def pushedCalls_cjs_def pushedChunks_cjs_def)
qed

lemma quoted_cjs_escape_step:
  assumes "charCodeAt csv p = Some (CHR 0x22)" "charCodeAt csv (p + 1) = Some (CHR 0x22)"
  shows "quoted_cjs csv (Suc m) (charCodeAt csv p)
           \<lparr>inCol = 2, pos = p, rows = R, v = x, row = r, colIdx = k, calls = Cs, numChunks = K\<rparr>
         = quoted_cjs csv m (charCodeAt csv (p + 2))
           \<lparr>inCol = 2, pos = p + 2, rows = R, v = x @ quote, row = r, colIdx = k, calls = Cs,
            numChunks = K\<rparr>"
  using assms by (simp add: Let_def)

lemma quoted_cjs_close_step:
  assumes "charCodeAt csv p = Some (CHR 0x22)"
    "\<not> code_eq (charCodeAt csv (p + 1)) (Some (CHR 0x22))"
  shows "quoted_cjs csv (Suc m) (charCodeAt csv p)
           \<lparr>inCol = 2, pos = p, rows = R, v = x, row = r, colIdx = k, calls = Cs, numChunks = K\<rparr>
         = Some \<lparr>inCol = 0, pos = p + 1, rows = R, v = x, row = r, colIdx = k, calls = Cs,
                 numChunks = K\<rparr>"
  using assms by (simp add: Let_def)

lemma quoted_cjs_segment_step:
  assumes "charCodeAt csv p = Some y" "y \<noteq> CHR 0x22"
  shows "quoted_cjs csv (Suc m) (charCodeAt csv p)
           \<lparr>inCol = 2, pos = p, rows = R, v = x, row = r, colIdx = k, calls = Cs, numChunks = K\<rparr>
         = quoted_cjs csv m (Some (CHR 0x22))
           \<lparr>inCol = 2, pos = indexOf csv quote p, rows = R,
            v = x @ slice csv p (indexOf csv quote p), row = r, colIdx = k, calls = Cs,
            numChunks = K\<rparr>"
  using assms by (simp add: Let_def)

text \<open>The inner loop, from the character after the opening quote to the state after the
  closing quote.\<close>

lemma quoted_cjs_field:
  assumes "csv = pre @ escape w @ CHR 0x22 # rest" "p = int (length pre)"
    and "rest = [] \<or> hd rest \<noteq> CHR 0x22"
  shows "quoted_cjs csv (Suc (length w) + n) (charCodeAt csv p)
           \<lparr>inCol = 2, pos = p, rows = R, v = x, row = r, colIdx = k, calls = Cs, numChunks = K\<rparr>
         = Some \<lparr>inCol = 0, pos = p + int (length (escape w)) + 1, rows = R, v = x @ w, row = r,
                 colIdx = k, calls = Cs, numChunks = K\<rparr>"
  using assms
proof (induction "length w" arbitrary: w pre p x n rule: less_induct)
  case less
  note csv = less.prems(1) and p = less.prems(2) and rest = less.prems(3)
  show ?case
  proof (cases w)
    case Nil
    have ch: "charCodeAt csv p = Some (CHR 0x22)"
      using charCodeAt_at [OF p, of "CHR 0x22 # rest"] csv Nil by simp
    have nx: "\<not> code_eq (charCodeAt csv (p + 1)) (Some (CHR 0x22))"
      using charCodeAt_next [OF p, of "CHR 0x22" rest] csv Nil rest
      by (cases rest) auto
    have "Suc (length w) + n = Suc n" using Nil by simp
    then show ?thesis
      using quoted_cjs_close_step [OF ch nx, of n R x r k Cs K] Nil by simp
  next
    case (Cons y w')
    show ?thesis
    proof (cases "y = CHR 0x22")
      case True
      have csv': "csv = (pre @ [CHR 0x22, CHR 0x22]) @ escape w' @ CHR 0x22 # rest"
        using csv Cons True by simp
      have ch: "charCodeAt csv p = Some (CHR 0x22)"
        using charCodeAt_at [OF p, of "escape w @ CHR 0x22 # rest"] csv Cons True by simp
      have nx: "charCodeAt csv (p + 1) = Some (CHR 0x22)"
        using charCodeAt_next [OF p, of "CHR 0x22" "CHR 0x22 # escape w' @ CHR 0x22 # rest"]
          csv Cons True by simp
      have p2: "p + 2 = int (length (pre @ [CHR 0x22, CHR 0x22]))" using p by simp
      have "length w' < length w" using Cons by simp
      note ih = less.hyps [OF this csv' p2 rest, of n "x @ quote"]
      have fuel: "Suc (length w) + n = Suc (Suc (length w') + n)" using Cons by simp
      have fin: "p + 2 + int (length (escape w')) + 1 = p + int (length (escape w)) + 1"
        "(x @ quote) @ w' = x @ w"
        using Cons True by (simp_all add: quote_def)
      show ?thesis
        unfolding fuel quoted_cjs_escape_step [OF ch nx] ih fin ..
    next
      case False
      define a where "a = takeWhile (\<lambda>z. z \<noteq> CHR 0x22) w"
      define b where "b = dropWhile (\<lambda>z. z \<noteq> CHR 0x22) w"
      have ab: "w = a @ b" and esc: "escape w = a @ escape b"
        using escape_split [of w] by (simp_all add: a_def b_def)
      have ane: "a \<noteq> []" and anq: "CHR 0x22 \<notin> set a"
        using Cons False by (auto simp: a_def dest: set_takeWhileD)
      have bhd: "b = [] \<or> hd b = CHR 0x22"
        using hd_dropWhile [of "\<lambda>z. z \<noteq> CHR 0x22" w] by (auto simp: b_def)
      obtain zz where zz: "escape b @ CHR 0x22 # rest = CHR 0x22 # zz"
        using bhd by (cases b) auto
      have csv2: "csv = pre @ a @ CHR 0x22 # zz" using csv esc zz by simp
      have csv3: "csv = (pre @ a) @ CHR 0x22 # zz" using csv2 by simp
      have csv': "csv = (pre @ a) @ escape b @ CHR 0x22 # rest" using csv esc by simp
      have pa: "p + int (length a) = int (length (pre @ a))" using p by simp
      have ch: "charCodeAt csv p = Some (hd a)"
        using charCodeAt_at [OF p, of "a @ CHR 0x22 # zz"] csv2 ane by (cases a) simp_all
      have ch2: "Some (CHR 0x22) = charCodeAt csv (p + int (length a))"
        using charCodeAt_at [OF pa, of "CHR 0x22 # zz"] csv3 by simp
      have hda: "hd a \<noteq> CHR 0x22" using ane anq by (cases a) auto
      have idx: "indexOf csv quote p = p + int (length a)"
        using indexOf_at [OF p, of "a @ CHR 0x22 # zz" quote] csv2 anq
        by (simp add: quote_def find_sub_char)
      have sl: "slice csv p (p + int (length a)) = a"
        using slice_at [OF p, of "a @ CHR 0x22 # zz" "length a"] csv2 by simp
      have lt: "length b < length w" using ab ane by simp
      define m where "m = n + (length a - 1)"
      have fuel: "Suc (length w) + n = Suc (Suc (length b) + m)"
        using ab ane by (cases a) (simp_all add: m_def)
      note ih = less.hyps [OF lt csv' pa rest, of m "x @ a"]
      have fin: "p + int (length a) + int (length (escape b)) + 1 = p + int (length (escape w)) + 1"
        "(x @ a) @ b = x @ w"
        using ab esc by simp_all
      show ?thesis
        unfolding fuel quoted_cjs_segment_step [OF ch hda] idx sl ch2 ih fin ..
    qed
  qed
qed

lemma body_cjs_quoted_field:
  assumes csv: "csv = pre @ CHR 0x22 # escape w @ CHR 0x22 # rest" and p: "p = int (length pre)"
    and rest: "rest = [] \<or> hd rest \<noteq> CHR 0x22"
  shows "body_cjs csv cd rd nc C lm pr (Suc (length w) + n)
           \<lparr>inCol = 0, pos = p, rows = R, v = x, row = r, colIdx = k, calls = Cs, numChunks = K\<rparr>
         = Some (Inr (Next \<lparr>inCol = 0, pos = p + 1 + int (length (escape w)) + 1, rows = R,
                            v = x @ w, row = r, colIdx = k, calls = Cs, numChunks = K\<rparr>))"
proof -
  have ch: "charCodeAt csv p = Some (CHR 0x22)"
    using charCodeAt_at [OF p, of "CHR 0x22 # escape w @ CHR 0x22 # rest"] csv by simp
  have csv': "csv = (pre @ [CHR 0x22]) @ escape w @ CHR 0x22 # rest" using csv by simp
  have p': "p + 1 = int (length (pre @ [CHR 0x22]))" using p by simp
  have q: "quoted_cjs csv (Suc (length w + n)) (charCodeAt csv (p + 1))
           \<lparr>inCol = 2, pos = p + 1, rows = R, v = x, row = r, colIdx = k, calls = Cs,
            numChunks = K\<rparr>
         = Some \<lparr>inCol = 0, pos = p + 1 + int (length (escape w)) + 1, rows = R, v = x @ w,
                 row = r, colIdx = k, calls = Cs, numChunks = K\<rparr>"
    using quoted_cjs_field [OF csv' p' rest, of n R x r k Cs K]
    by (simp del: quoted_cjs.simps)
  show ?thesis
    by (simp add: body_cjs_def unstarted_cjs_def ch Let_def q del: quoted_cjs.simps)
qed

lemma read_field_cjs:
  assumes csv: "csv = pre @ fieldText f @ rest" and p: "p = int (length pre)"
    and ok: "fieldOK c rd f" "delimsOK c rd"
    and ctx: "(int k \<noteq> int nc - 1 \<and> (\<exists>t. rest = c # t)) \<or>
              (int k = int nc - 1 \<and> (\<exists>t. rest = rd @ t))"
    and fin: "\<And>ic. ic = 0 \<or> ic = 1 \<Longrightarrow>
       yields (\<lambda>n. loop_cjs csv [c] rd nc C lm False n
         \<lparr>inCol = ic, pos = p + int (length (fieldText f)), rows = R, v = fieldValue f,
          row = r, colIdx = k, calls = Cs, numChunks = K\<rparr>) P"
  shows "yields (\<lambda>n. loop_cjs csv [c] rd nc C lm False n
         \<lparr>inCol = 0, pos = p, rows = R, v = [], row = r, colIdx = k, calls = Cs,
          numChunks = K\<rparr>) P"
proof (cases f)
  case (Plain s)
  show ?thesis
  proof (cases "s = []")
    case True
    then show ?thesis using fin [of 0] Plain by simp
  next
    case False
    have okp: "fieldOK c rd (Plain s)" using ok(1) Plain by simp
    have guard: "p \<le> int (length csv) - 1" using csv p Plain False by (cases s) simp_all
    have "body_cjs csv [c] rd nc C lm False (0 + n)
           \<lparr>inCol = 0, pos = p, rows = R, v = [], row = r, colIdx = k, calls = Cs, numChunks = K\<rparr>
         = Some (Inr (Next \<lparr>inCol = 1, pos = p + int (length s), rows = R, v = [] @ s, row = r,
                      colIdx = k, calls = Cs, numChunks = K\<rparr>))" for n
      using ctx
    proof (elim disjE conjE exE)
      fix t assume "int k \<noteq> int nc - 1" "rest = c # t"
      then show ?thesis
        using body_cjs_scan_col [OF _ p okp False ok(2), of csv t k nc] csv Plain by simp
    next
      fix t assume "int k = int nc - 1" "rest = rd @ t"
      then show ?thesis
        using body_cjs_scan_last_rd [OF _ p okp False ok(2), of csv t k nc] csv Plain by simp
    qed
    then show ?thesis
      using yields_step_cjs [OF _ _ fin [of 1], where j = 0] guard Plain by simp
  qed
next
  case (Quoted w)
  have csv1: "csv = pre @ CHR 0x22 # escape w @ CHR 0x22 # rest"
    using csv Quoted by (simp add: quote_def)
  have rest: "rest = [] \<or> hd rest \<noteq> CHR 0x22"
    using ctx delimsOK_D [OF ok(2)] by (cases rd) auto
  have guard: "p \<le> int (length csv) - 1" using csv1 p by simp
  have fin': "yields (\<lambda>n. loop_cjs csv [c] rd nc C lm False n
         \<lparr>inCol = 0, pos = p + 1 + int (length (escape w)) + 1, rows = R, v = [] @ w,
          row = r, colIdx = k, calls = Cs, numChunks = K\<rparr>) P"
    using fin [of 0] Quoted by (simp add: quote_def ac_simps)
  show ?thesis
    using yields_step_cjs [OF _ body_cjs_quoted_field [OF csv1 p rest] fin'] guard by simp
qed

lemma field_col_cjs:
  assumes csv: "csv = pre @ fieldText f @ c # rest" and p: "p = int (length pre)"
    and ok: "fieldOK c rd f" "delimsOK c rd" and k: "int k \<noteq> int nc - 1"
    and fin: "yields (\<lambda>n. loop_cjs csv [c] rd nc C lm False n
         \<lparr>inCol = 0, pos = p + int (length (fieldText f)) + 1, rows = R, v = [],
          row = arr_set r k (fieldValue f), colIdx = Suc k, calls = Cs, numChunks = K\<rparr>) P"
  shows "yields (\<lambda>n. loop_cjs csv [c] rd nc C lm False n
         \<lparr>inCol = 0, pos = p, rows = R, v = [], row = r, colIdx = k, calls = Cs,
          numChunks = K\<rparr>) P"
proof (rule read_field_cjs [OF csv p ok])
  show "(int k \<noteq> int nc - 1 \<and> (\<exists>t. c # rest = c # t)) \<or>
        (int k = int nc - 1 \<and> (\<exists>t. c # rest = rd @ t))"
    using k by simp
next
  fix ic :: nat assume ic: "ic = 0 \<or> ic = 1"
  have csv': "csv = (pre @ fieldText f) @ c # rest" using csv by simp
  have p': "p + int (length (fieldText f)) = int (length (pre @ fieldText f))" using p by simp
  have guard: "p + int (length (fieldText f)) \<le> int (length csv) - 1" using csv p by simp
  show "yields (\<lambda>n. loop_cjs csv [c] rd nc C lm False n
         \<lparr>inCol = ic, pos = p + int (length (fieldText f)), rows = R, v = fieldValue f,
          row = r, colIdx = k, calls = Cs, numChunks = K\<rparr>) P"
    using yields_step_cjs [OF _ _ fin, where j = 0] body_cjs_commit_col [OF csv' p' ok(2) ic]
      guard
    by simp
qed

lemma field_last_rd_cjs:
  assumes csv: "csv = pre @ fieldText f @ rd @ rest" and p: "p = int (length pre)"
    and ok: "fieldOK c rd f" "delimsOK c rd" and k: "int k = int nc - 1"
    and fin: "yields (\<lambda>n. loop_cjs csv [c] rd nc C None False n
         \<lparr>inCol = 0, pos = p + int (length (fieldText f)) + int (length rd),
          rows = pushedRows_cjs C R (arr_set r k (fieldValue f)),
          v = [], row = Array nc, colIdx = 0,
          calls = pushedCalls_cjs C Cs K R (arr_set r k (fieldValue f)),
          numChunks = pushedChunks_cjs C K R\<rparr>) P"
  shows "yields (\<lambda>n. loop_cjs csv [c] rd nc C None False n
         \<lparr>inCol = 0, pos = p, rows = R, v = [], row = r, colIdx = k, calls = Cs,
          numChunks = K\<rparr>) P"
proof (rule read_field_cjs [OF csv p ok])
  show "(int k \<noteq> int nc - 1 \<and> (\<exists>t. rd @ rest = c # t)) \<or>
        (int k = int nc - 1 \<and> (\<exists>t. rd @ rest = rd @ t))"
    using k by simp
next
  fix ic :: nat assume ic: "ic = 0 \<or> ic = 1"
  have csv': "csv = (pre @ fieldText f) @ rd @ rest" using csv by simp
  have p': "p + int (length (fieldText f)) = int (length (pre @ fieldText f))" using p by simp
  have guard: "p + int (length (fieldText f)) \<le> int (length csv) - 1"
    using csv p delimsOK_D(1) [OF ok(2)] by (cases rd) simp_all
  show "yields (\<lambda>n. loop_cjs csv [c] rd nc C None False n
         \<lparr>inCol = ic, pos = p + int (length (fieldText f)), rows = R, v = fieldValue f,
          row = r, colIdx = k, calls = Cs, numChunks = K\<rparr>) P"
    using yields_step_cjs [OF _ _ fin, where j = 0] body_cjs_commit_row [OF csv' p' ok(2) ic]
      guard
    by simp
qed

lemma row_prefix_cjs:
  assumes "csv = pre @ concat (map (\<lambda>g. fieldText g @ [c]) fs) @ rest" "p = int (length pre)"
    and "list_all (fieldOK c rd) fs" "delimsOK c rd" "length vals + length fs < nc"
    and "yields (\<lambda>n. loop_cjs csv [c] rd nc C lm False n
         \<lparr>inCol = 0, pos = p + int (length (concat (map (\<lambda>g. fieldText g @ [c]) fs))),
          rows = R, v = [], row = filled nc (vals @ map fieldValue fs),
          colIdx = length vals + length fs, calls = Cs, numChunks = K\<rparr>) P"
  shows "yields (\<lambda>n. loop_cjs csv [c] rd nc C lm False n
         \<lparr>inCol = 0, pos = p, rows = R, v = [], row = filled nc vals, colIdx = length vals,
          calls = Cs, numChunks = K\<rparr>) P"
  using assms
proof (induction fs arbitrary: pre p vals)
  case Nil
  then show ?case by simp
next
  case (Cons f fs)
  note csv = Cons.prems(1) and p = Cons.prems(2) and ok = Cons.prems(3,4)
    and len = Cons.prems(5) and fin = Cons.prems(6)
  have csv1: "csv = pre @ fieldText f @ c # (concat (map (\<lambda>g. fieldText g @ [c]) fs) @ rest)"
    using csv by simp
  have csv2: "csv = (pre @ fieldText f @ [c]) @ concat (map (\<lambda>g. fieldText g @ [c]) fs) @ rest"
    using csv by simp
  have okf: "fieldOK c rd f" and okfs: "list_all (fieldOK c rd) fs" using ok(1) by simp_all
  have k: "int (length vals) \<noteq> int nc - 1" using len by simp
  have lt: "length vals < nc" using len by simp
  have next_state: "yields (\<lambda>n. loop_cjs csv [c] rd nc C lm False n
         \<lparr>inCol = 0, pos = p + int (length (fieldText f)) + 1, rows = R, v = [],
          row = filled nc (vals @ [fieldValue f]), colIdx = length (vals @ [fieldValue f]),
          calls = Cs, numChunks = K\<rparr>) P"
  proof (rule Cons.IH [OF csv2 _ okfs ok(2)])
    show "p + int (length (fieldText f)) + 1 = int (length (pre @ fieldText f @ [c]))"
      using p by simp
    show "length (vals @ [fieldValue f]) + length fs < nc" using len by simp
    show "yields (\<lambda>n. loop_cjs csv [c] rd nc C lm False n
         \<lparr>inCol = 0,
          pos = p + int (length (fieldText f)) + 1
                  + int (length (concat (map (\<lambda>g. fieldText g @ [c]) fs))),
          rows = R, v = [], row = filled nc ((vals @ [fieldValue f]) @ map fieldValue fs),
          colIdx = length (vals @ [fieldValue f]) + length fs, calls = Cs, numChunks = K\<rparr>) P"
      using fin by (simp add: ac_simps)
  qed
  show ?case
    by (rule field_col_cjs [OF csv1 p okf ok(2) k])
       (use next_state lt in \<open>simp add: arr_set_filled\<close>)
qed

lemma row_rd_cjs:
  assumes csv: "csv = pre @ rowText c r @ rd @ rest" and p: "p = int (length pre)"
    and ok: "rowOK nc c rd r" "0 < nc" "delimsOK c rd"
    and fin: "yields (\<lambda>n. loop_cjs csv [c] rd nc C None False n
         \<lparr>inCol = 0, pos = p + int (length (rowText c r)) + int (length rd),
          rows = pushedRows_cjs C R (rowValues r),
          v = [], row = Array nc, colIdx = 0,
          calls = pushedCalls_cjs C Cs K R (rowValues r),
          numChunks = pushedChunks_cjs C K R\<rparr>) P"
  shows "yields (\<lambda>n. loop_cjs csv [c] rd nc C None False n
         \<lparr>inCol = 0, pos = p, rows = R, v = [], row = Array nc, colIdx = 0, calls = Cs,
          numChunks = K\<rparr>) P"
proof -
  obtain fs f where r: "r = fs @ [f]" and len: "length fs = nc - 1"
    and okfs: "list_all (fieldOK c rd) fs" and okf: "fieldOK c rd f"
    using row_split [OF ok(1,2)] by blast
  define ct where "ct = concat (map (\<lambda>g. fieldText g @ [c]) fs)"
  have rt: "rowText c r = ct @ fieldText f" using r by (simp add: rowText_snoc ct_def)
  have csv1: "csv = pre @ ct @ (fieldText f @ rd @ rest)" using csv rt by simp
  have csv2: "csv = (pre @ ct) @ fieldText f @ rd @ rest" using csv rt by simp
  have full: "arr_set (filled nc (map fieldValue fs)) (length fs) (fieldValue f) = rowValues r"
    using row_full [OF r len ok(2)] .
  have last: "yields (\<lambda>n. loop_cjs csv [c] rd nc C None False n
         \<lparr>inCol = 0, pos = p + int (length ct), rows = R, v = [],
          row = filled nc (map fieldValue fs), colIdx = length fs, calls = Cs,
          numChunks = K\<rparr>) P"
  proof (rule field_last_rd_cjs [OF csv2 _ okf ok(3)])
    show "p + int (length ct) = int (length (pre @ ct))" using p by simp
    show "int (length fs) = int nc - 1" using len ok(2) by simp
    show "yields (\<lambda>n. loop_cjs csv [c] rd nc C None False n
         \<lparr>inCol = 0, pos = p + int (length ct) + int (length (fieldText f)) + int (length rd),
          rows = pushedRows_cjs C R
                   (arr_set (filled nc (map fieldValue fs)) (length fs) (fieldValue f)),
          v = [], row = Array nc, colIdx = 0,
          calls = pushedCalls_cjs C Cs K R
                    (arr_set (filled nc (map fieldValue fs)) (length fs) (fieldValue f)),
          numChunks = pushedChunks_cjs C K R\<rparr>) P"
      using fin full rt by (simp add: ac_simps)
  qed
  have "yields (\<lambda>n. loop_cjs csv [c] rd nc C None False n
         \<lparr>inCol = 0, pos = p, rows = R, v = [], row = filled nc [],
          colIdx = length ([]::string list), calls = Cs, numChunks = K\<rparr>) P"
    by (rule row_prefix_cjs [OF csv1 [unfolded ct_def] p okfs ok(3)])
       (use last len ok(2) in \<open>simp_all add: ct_def\<close>)
  then show ?thesis by (simp add: filled_Nil)
qed

lemma concat_pushed_cjs:
  "concat (map fst (pushedCalls_cjs C Cs K R r)) @ pushedRows_cjs C R r
     = concat (map fst Cs) @ R @ [r]"
  by (simp add: pushedCalls_cjs_def pushedRows_cjs_def)

text \<open>The whole table, every row followed by the row delimiter: after the last row the loop
  ends, and the fresh row buffer with the empty string in slot \<open>0\<close> is handed over as one
  more row.\<close>

lemma table_cjs:
  assumes "csv = pre @ tableText c rd rs" "p = int (length pre)"
    and "tableOK nc c rd rs" "0 < nc" "delimsOK c rd"
  shows "yields (\<lambda>n. loop_cjs csv [c] rd nc C None False n
           \<lparr>inCol = 0, pos = p, rows = R, v = [], row = Array nc, colIdx = 0, calls = Cs,
            numChunks = K\<rparr>)
           (\<lambda>res. \<exists>cs. res = Inr cs \<and>
              concat (map fst cs)
                = concat (map fst Cs) @ R @ map rowValues rs @ [arr_set (Array nc) 0 []] \<and>
              cs \<noteq> [] \<and> fst (last cs) \<noteq> [] \<and>
              last (fst (last cs)) = arr_set (Array nc) 0 [])"
  using assms
proof (induction rs arbitrary: pre p R Cs K)
  case Nil
  then show ?case
    by (intro yields_exit_cjs) (simp_all add: tableText_Nil)
next
  case (Cons r rs)
  note csv = Cons.prems(1) and p = Cons.prems(2) and tab = Cons.prems(3)
    and ok = Cons.prems(4,5)
  have okr: "rowOK nc c rd r" and okrs: "tableOK nc c rd rs"
    using tab by (simp_all add: tableOK_def)
  have csv1: "csv = pre @ rowText c r @ rd @ tableText c rd rs"
    using csv by (simp add: tableText_Cons)
  have csv2: "csv = (pre @ rowText c r @ rd) @ tableText c rd rs"
    using csv by (simp add: tableText_Cons)
  have p2: "p + int (length (rowText c r)) + int (length rd) = int (length (pre @ rowText c r @ rd))"
    using p by simp
  show ?case
  proof (rule row_rd_cjs [OF csv1 p okr ok])
    show "yields (\<lambda>n. loop_cjs csv [c] rd nc C None False n
           \<lparr>inCol = 0, pos = p + int (length (rowText c r)) + int (length rd),
            rows = pushedRows_cjs C R (rowValues r), v = [], row = Array nc, colIdx = 0,
            calls = pushedCalls_cjs C Cs K R (rowValues r),
            numChunks = pushedChunks_cjs C K R\<rparr>)
           (\<lambda>res. \<exists>cs. res = Inr cs \<and>
              concat (map fst cs)
                = concat (map fst Cs) @ R @ map rowValues (r # rs) @ [arr_set (Array nc) 0 []] \<and>
              cs \<noteq> [] \<and> fst (last cs) \<noteq> [] \<and>
              last (fst (last cs)) = arr_set (Array nc) 0 [])"
      by (rule yields_mono [OF Cons.IH [OF csv2 p2 okrs ok]])
         (use concat_pushed_cjs [of C Cs K R "rowValues r"] in \<open>auto simp flip: append_assoc\<close>)
  qed
qed

lemma parse_cjs_quoting:
  assumes "schema_quote sch \<noteq> None" "delimited sch c rd nc"
  shows "parse_cjs fuel csv sch C lm None =
           loop_cjs csv [c] rd nc C lm False fuel
             \<lparr>inCol = 0, pos = 0, rows = [], v = [], row = Array nc, colIdx = 0, calls = [],
              numChunks = 0\<rparr>"
  using assms by (auto simp add: parse_cjs_def delimited_def Let_def)

lemma fresh_row: "0 < nc \<Longrightarrow> arr_set (Array nc) 0 [] = Some [] # replicate (nc - 1) None"
  by (cases nc) (simp_all add: arr_set_def Array_def)

section \<open>The type probe of schema (src/uDSV.js)\<close>

lemma length_arr_set: "length ts \<le> length (arr_set ts j x)"
  by (simp add: arr_set_def)

lemma nth_arr_set:
  "i < length ts \<Longrightarrow> arr_set ts j x ! i = (if i = j then Some x else ts ! i)"
  by (auto simp add: arr_set_def nth_append)

text \<open>One step of the probe of a row, on the pair of an index and the slot there.\<close>

lemma probe_fold:
  assumes "i < length ts"
  shows "i < length (fold (\<lambda>(colIdx, slot) ts.
             case slot of None \<Rightarrow> ts
             | Some val \<Rightarrow> if \<not> plusIsNaN val then arr_set ts colIdx ''n'' else ts) ps ts)
       \<and> fold (\<lambda>(colIdx, slot) ts.
             case slot of None \<Rightarrow> ts
             | Some val \<Rightarrow> if \<not> plusIsNaN val then arr_set ts colIdx ''n'' else ts) ps ts ! i
         = (if list_ex (\<lambda>(j, slot). j = i \<and> (case slot of None \<Rightarrow> False
                                               | Some val \<Rightarrow> \<not> plusIsNaN val)) ps
            then Some ''n'' else ts ! i)"
  using assms
proof (induction ps arbitrary: ts)
  case Nil
  then show ?case by simp
next
  case (Cons q ps)
  obtain j slot where q: "q = (j, slot)" by (cases q)
  show ?case
  proof (cases slot)
    case None
    then show ?thesis using Cons.IH [OF Cons.prems] q by simp
  next
    case (Some val)
    show ?thesis
    proof (cases "plusIsNaN val")
      case True
      then show ?thesis using Cons.IH [OF Cons.prems] q Some by simp
    next
      case False
      have l: "i < length (arr_set ts j ''n'')"
        using Cons.prems length_arr_set [of ts j "''n''"] by simp
      show ?thesis
        using Cons.IH [OF l] q Some False nth_arr_set [OF Cons.prems, of j "''n''"]
        by auto
    qed
  qed
qed

lemma list_ex_zip_index:
  "list_ex (\<lambda>(j, slot). j = i \<and> Q slot) (zip [0..<length r] r) = (i < length r \<and> Q (r ! i))"
proof
  assume "list_ex (\<lambda>(j, slot). j = i \<and> Q slot) (zip [0..<length r] r)"
  then show "i < length r \<and> Q (r ! i)"
    by (auto simp add: list_ex_iff set_zip)
next
  assume a: "i < length r \<and> Q (r ! i)"
  then have "(i, r ! i) \<in> set (zip [0..<length r] r)"
    by (auto simp add: set_zip intro!: exI [of _ i])
  then show "list_ex (\<lambda>(j, slot). j = i \<and> Q slot) (zip [0..<length r] r)"
    using a by (auto simp add: list_ex_iff)
qed

lemma probeRow_nth:
  assumes "i < length ts"
  shows "i < length (probeRow r ts)"
    and "probeRow r ts ! i = (if numericAt r i then Some ''n'' else ts ! i)"
  using probe_fold [OF assms, of "zip [0..<length r] r"]
  by (simp_all add: probeRow_def numericAt_def list_ex_zip_index)

lemma fold_probeRow_nth:
  assumes "i < length ts"
  shows "fold probeRow sample ts ! i
           = (if list_ex (\<lambda>r. numericAt r i) sample then Some ''n'' else ts ! i)"
  using assms
proof (induction sample arbitrary: ts)
  case Nil
  then show ?case by simp
next
  case (Cons r sample)
  show ?case
    using Cons.IH [OF probeRow_nth(1) [OF Cons.prems, of r]] probeRow_nth(2) [OF Cons.prems, of r]
    by simp
qed

section \<open>The sniffer of schema and the quote-free loop (src/uDSV.js)\<close>

lemma find_sub_occurs: "find_sub sub (a @ sub @ rest) \<noteq> None"
proof (induction a)
  case Nil
  show ?case
  proof (cases "sub @ rest")
    case Nil
    then show ?thesis by simp
  next
    case (Cons y ys)
    have "prefix sub (sub @ rest)" by simp
    then have "prefix sub (y # ys)" unfolding Cons .
    then show ?thesis by (simp add: Cons)
  qed
next
  case (Cons y a)
  then show ?case by auto
qed

lemma find_sub_sublist: "find_sub sub s \<noteq> None \<longleftrightarrow> sublist sub s"
proof
  assume "find_sub sub s \<noteq> None"
  then show "sublist sub s"
  proof (induction s)
    case Nil
    then show ?case by (simp split: if_splits)
  next
    case (Cons x xs)
    then show ?case
      by (auto split: if_splits simp add: sublist_Cons_right)
  qed
next
  assume "sublist sub s"
  then show "find_sub sub s \<noteq> None"
    using find_sub_occurs [of sub] by (auto simp add: sublist_def)
qed

lemma indexOf_sublist: "indexOf s sub 0 > - 1 \<longleftrightarrow> sublist sub s"
  using find_sub_sublist [of sub s] by (auto simp add: indexOf_def split: option.splits)

lemma indexOf_occurs: "indexOf (a @ sub @ rest) sub 0 > - 1"
  by (simp add: indexOf_sublist)

lemma firstRowMatch_split:
  "\<exists>rest. csvStr = fst (firstRowMatch csvStr) @ snd (firstRowMatch csvStr) @ rest"
proof -
  define r1 where "r1 = dropWhile (\<lambda>ch. \<not> isLineTerminator ch) csvStr"
  define cr where "cr = (if prefix CR r1 then CR else [])"
  define r2 where "r2 = drop (length cr) r1"
  define lf where "lf = (if prefix LF r2 then LF else [])"
  have "prefix cr r1" by (simp add: cr_def)
  then have a: "r1 = cr @ r2" by (auto simp add: r2_def prefix_def)
  have "prefix lf r2" by (simp add: lf_def)
  then have b: "r2 = lf @ drop (length lf) r2" by (auto simp add: prefix_def)
  have c: "csvStr = takeWhile (\<lambda>ch. \<not> isLineTerminator ch) csvStr @ r1"
    by (simp add: r1_def)
  have f: "fst (firstRowMatch csvStr) = takeWhile (\<lambda>ch. \<not> isLineTerminator ch) csvStr"
    by (simp add: firstRowMatch_def Let_def)
  have g: "snd (firstRowMatch csvStr) = cr @ lf"
    by (simp add: firstRowMatch_def Let_def cr_def lf_def r2_def r1_def)
  have "r1 = (cr @ lf) @ drop (length lf) r2" using a b by simp
  then have "csvStr = fst (firstRowMatch csvStr) @ snd (firstRowMatch csvStr) @ drop (length lf) r2"
    unfolding f g using c by simp
  then show ?thesis by blast
qed

text \<open>With a non-empty row delimiter the quote-free loop of \<open>parse\<close> (src/uDSV.js) returns,
  and with a row if one was taken or is yet to come.\<close>

lemma fastLoop_returns:
  assumes "rd \<noteq> []" "0 \<le> p" "p \<le> int (length csv)"
  shows "\<exists>res. (\<forall>n. fastLoop csv cd rd lm (Suc (length csv - nat p) + n) p rs cs = Some res)
              \<and> (concat cs \<noteq> [] \<or> rs \<noteq> [] \<or> indexOf csv rd p > - 1 \<longrightarrow> concat res \<noteq> [])"
  using assms(2,3)
proof (induction "length csv - nat p" arbitrary: p rs cs rule: less_induct)
  case less
  show ?case
  proof (cases "indexOf csv rd p > - 1")
    case False
    then show ?thesis by (auto simp add: Let_def)
  next
    case True
    define q where "q = indexOf csv rd p + int (length rd)"
    define rs1 where "rs1 = rs @ [map Some (split_str (slice csv p (indexOf csv rd p)) cd)]"
    have rng: "p \<le> indexOf csv rd p" "q \<le> int (length csv)"
      using indexOf_range [of csv rd p] True less.prems by (auto simp add: q_def)
    have "0 < int (length rd)" using assms(1) by simp
    then have q: "p < q" "0 \<le> q" using rng(1) less.prems(1) unfolding q_def by linarith+
    have lt: "length csv - nat q < length csv - nat p" using q rng(2) less.prems by linarith
    have fuel: "length csv - nat p + n = Suc (length csv - nat q) + (n + (nat q - nat p - 1))" for n
      using q rng(2) less.prems by linarith
    have step: "fastLoop csv cd rd lm (Suc (length csv - nat p) + n) p rs cs =
        (if lm = Some (int (length rs1)) then Some (cs @ [rs1])
         else if length rs1 = CHUNK_SIZE
              then fastLoop csv cd rd lm (Suc (length csv - nat q) + (n + (nat q - nat p - 1)))
                     q [] (cs @ [rs1])
              else fastLoop csv cd rd lm (Suc (length csv - nat q) + (n + (nat q - nat p - 1)))
                     q rs1 cs)" for n
      using True by (simp add: Let_def q_def [symmetric] rs1_def [symmetric] fuel)
        (simp add: rs1_def)
    obtain res1 where r1: "\<forall>n. fastLoop csv cd rd lm (Suc (length csv - nat q) + n) q rs1 cs
        = Some res1" "concat res1 \<noteq> []"
      using less.hyps [OF lt q(2) rng(2), of rs1 cs] by (auto simp add: rs1_def)
    obtain res2 where r2: "\<forall>n. fastLoop csv cd rd lm (Suc (length csv - nat q) + n) q []
        (cs @ [rs1]) = Some res2" "concat res2 \<noteq> []"
      using less.hyps [OF lt q(2) rng(2), of "[]" "cs @ [rs1]"] by (auto simp add: rs1_def)
    have ne: "concat (cs @ [rs1]) \<noteq> []" by (simp add: rs1_def)
    show ?thesis
    proof (cases "lm = Some (int (length rs1))")
      case True
      then show ?thesis using step ne by auto
    next
      case nl: False
      show ?thesis
      proof (cases "length rs1 = CHUNK_SIZE")
        case True
        then show ?thesis using step nl r2 by auto
      next
        case False
        then show ?thesis using step nl r1 by auto
      qed
    qed
  qed
qed

text \<open>With the empty row delimiter every search succeeds on the spot: the loop takes empty
  rows until the row limit is met.\<close>

lemma fastLoop_empty_delim:
  assumes "limit \<le> int CHUNK_SIZE" "int (length rs) < limit"
  shows "fastLoop csv cd [] (Some limit) (nat limit - length rs + n) 0 rs cs
           = Some (cs @ [rs @ replicate (nat limit - length rs) (map Some (split_str [] cd))])"
  using assms(2)
proof (induction "nat limit - length rs" arbitrary: rs)
  case 0
  then show ?case by simp
next
  case (Suc m)
  define x where "x = map Some (split_str [] cd)"
  have fuel: "nat limit - length rs + n = Suc (m + n)" using Suc.hyps(2) by simp
  have idx: "indexOf csv [] 0 = 0" by (simp add: indexOf_empty)
  have sl: "slice csv 0 0 = []" by (simp add: slice_empty)
  show ?case
  proof (cases "limit = int (length rs) + 1")
    case True
    then have "nat limit - length rs = Suc 0" by simp
    then show ?thesis using True by (simp add: fuel idx sl Let_def)
  next
    case False
    then have lt: "int (length (rs @ [x])) < limit" using Suc.prems by simp
    then have nc: "length (rs @ [x]) \<noteq> CHUNK_SIZE" using assms(1) by linarith
    have m: "m = nat limit - length (rs @ [x])" using Suc.hyps(2) by simp
    have "fastLoop csv cd [] (Some limit) (m + n) 0 (rs @ [x]) cs
           = Some (cs @ [(rs @ [x]) @ replicate (nat limit - length (rs @ [x])) x])"
      using Suc.hyps(1) [OF m lt] unfolding m [symmetric] by (simp add: x_def)
    moreover have "nat limit - length rs = Suc (nat limit - length (rs @ [x]))"
      using Suc.hyps(2) by simp
    then have "replicate (nat limit - length rs) x
                     = x # replicate (nat limit - length (rs @ [x])) x"
      by (simp only: replicate_Suc)
    ultimately show ?thesis
      using False nc
      by (simp add: fuel idx sl Let_def x_def [symmetric])
  qed
qed

text \<open>Without a column delimiter every row of the quote-free loop is its line, whole.\<close>

lemma fastLoop_undelimited:
  "fastLoop csv None rd lm n p rs cs = Some res \<Longrightarrow>
   \<forall>r \<in> set rs. \<exists>x. r = [Some x] \<Longrightarrow>
   \<forall>r \<in> set (concat cs). \<exists>x. r = [Some x] \<Longrightarrow>
   \<forall>r \<in> set (concat res). \<exists>x. r = [Some x]"
proof (induction n arbitrary: p rs cs)
  case 0
  then show ?case by simp
next
  case (Suc n)
  define rs1 where "rs1 = rs @ [map Some (split_str (slice csv p (indexOf csv rd p)) None)]"
  have one: "\<forall>r \<in> set rs1. \<exists>x. r = [Some x]"
    using Suc.prems(2) by (auto simp add: rs1_def split_str_def)
  then have two: "\<forall>r \<in> set (concat (cs @ [rs1])). \<exists>x. r = [Some x]"
    using Suc.prems(3) by auto
  have nil: "\<forall>r \<in> set ([]::row list). \<exists>x. r = [Some x]" by simp
  show ?case
  proof (cases "indexOf csv rd p > - 1")
    case False
    then show ?thesis using Suc.prems by (auto simp add: Let_def split: if_splits)
  next
    case True
    then consider
        (a) "res = cs @ [rs1]"
      | (b) "fastLoop csv None rd lm n (indexOf csv rd p + int (length rd)) [] (cs @ [rs1])
               = Some res"
      | (c) "fastLoop csv None rd lm n (indexOf csv rd p + int (length rd)) rs1 cs = Some res"
      using Suc.prems(1) by (auto simp add: Let_def rs1_def split: if_splits)
    then show ?thesis
    proof cases
      case a
      then show ?thesis using two by simp
    next
      case b
      show ?thesis by (rule Suc.IH [OF b nil two])
    next
      case c
      show ?thesis by (rule Suc.IH [OF c one Suc.prems(3)])
    qed
  qed
qed

lemma keys_of_single: "keys_of [Some x] = [''0'']"
  by code_simp

lemma sniffed_undelimited:
  assumes "\<forall>d \<in> set COL_DELIMS. \<not> sublist d (fst (firstRowMatch csvStr))"
  shows "cols_delim (sniffed csvStr) = None"
proof -
  have "find (\<lambda>delim. indexOf (fst (firstRowMatch csvStr)) delim 0 > - 1) COL_DELIMS = None"
    using assms by (simp add: find_None_iff indexOf_sublist)
  then show ?thesis by (simp add: sniffed_def Let_def)
qed

lemma firstLoop_returns:
  assumes "snd (firstRowMatch csvStr) \<noteq> [] \<or> (1 \<le> limit \<and> limit \<le> int CHUNK_SIZE)"
  shows "\<exists>res. concat res \<noteq> [] \<and>
           (\<exists>k. \<forall>n. fastLoop csvStr cd (snd (firstRowMatch csvStr)) (Some limit) (k + n) 0 [] []
                       = Some res)"
proof (cases "snd (firstRowMatch csvStr) = []")
  case True
  then have l: "1 \<le> limit" "limit \<le> int CHUNK_SIZE" using assms by auto
  have "fastLoop csvStr cd [] (Some limit) (nat limit - length ([]::row list) + n) 0 [] []
          = Some ([] @ [[] @ replicate (nat limit - length ([]::row list))
                                (map Some (split_str [] cd))])" for n
    by (rule fastLoop_empty_delim) (use l in auto)
  moreover have "nat limit \<noteq> 0" using l by simp
  ultimately show ?thesis unfolding True
    by (intro exI [of _ "[replicate (nat limit) (map Some (split_str [] cd))]"] conjI
        exI [of _ "nat limit"]) auto
next
  case False
  obtain rest where "csvStr = fst (firstRowMatch csvStr) @ snd (firstRowMatch csvStr) @ rest"
    using firstRowMatch_split by blast
  then have "indexOf csvStr (snd (firstRowMatch csvStr)) 0 > - 1"
    using indexOf_occurs by metis
  then obtain res where
      "\<forall>n. fastLoop csvStr cd (snd (firstRowMatch csvStr)) (Some limit)
             (Suc (length csvStr - nat 0) + n) 0 [] [] = Some res"
      "concat res \<noteq> []"
    using fastLoop_returns [OF False, of 0 csvStr cd "Some limit" "[]" "[]"]
    by (auto simp del: fastLoop.simps)
  then show ?thesis by blast
qed

section \<open>The regular expression of the probing call\<close>

text \<open>The probing call that \<open>schema\<close> makes stays inside the modelled patterns: the sniffed
  column delimiter is a tab, a pipe, a semicolon or a comma, the sniffed row delimiter is made
  of a carriage return and a line feed, and the loop itself throws nothing but a
  \<open>TypeError\<close>. So \<open>schema\<close> never ends with \<open>Unmodelled\<close>.\<close>

lemma sniffed_literalClass:
  assumes "cols_delim (sniffed csvStr) = Some cd"
  shows "literalClass (cd @ rows_delim (sniffed csvStr))"
proof -
  have "find (\<lambda>delim. indexOf (fst (firstRowMatch csvStr)) delim 0 > - 1) COL_DELIMS = Some cd"
    using assms by (simp add: sniffed_def Let_def)
  then have "cd \<in> set COL_DELIMS" by (auto simp add: find_Some_iff)
  then have cd: "literalClass cd"
    by (auto simp add: COL_DELIMS_def tab_def pipe_def semi_def comma_def literalClass_def)
  have "literalClass (snd (firstRowMatch csvStr))"
    by (simp add: firstRowMatch_def Let_def literalClass_def CR_def LF_def)
  then show ?thesis using cd by (simp add: sniffed_def Let_def literalClass_def)
qed

lemma body_error: "body csv cd rd nc lm pr s = Inl e \<Longrightarrow> e = TypeError"
  by (auto simp add: body_def unquoted_def scanUnquoted_def Let_def
      split: ctl.splits sum.splits if_splits option.splits prod.splits)

lemma loop_error: "loop csv cd rd nc lm pr n s = Some (Inl e) \<Longrightarrow> e = TypeError"
proof (induction n arbitrary: s)
  case 0
  then show ?case by simp
next
  case (Suc n)
  then show ?case
    using body_error [of csv cd rd nc lm pr s]
    by (auto split: if_splits sum.splits ctl.splits)
qed

lemma schema_modelled: "schema fuel csvStr limit \<noteq> Some (Inl Unmodelled)"
proof -
  have "parse fuel csvStr (sniffed csvStr) lm mc \<noteq> Some (Inl Unmodelled)" for lm mc
    using sniffed_literalClass [of csvStr] loop_error [where e = Unmodelled and csv = csvStr]
    by (auto simp add: parse_def Let_def split: option.splits)
  then show ?thesis
    by (auto simp add: schema_def firstRows_def Let_def
        split: option.splits sum.splits list.splits)
qed

section \<open>The end of the loop, and a row that is too short\<close>

text \<open>Without a row limit the loop of \<open>parse\<close> (src/uDSV.js) is left at the end of the text
  only, so the last invocation of the callback is the one after the loop, and its chunk ends
  with the row then in the row buffer.\<close>

lemma pushMacro_no_limit: "pushMacro rd nc None c s \<noteq> Return t"
  by (simp add: pushMacro_def Let_def)

lemma body_no_limit: "body csv cd rd nc None pr s \<noteq> Inr (Return t)"
  using pushMacro_no_limit [of rd nc]
  by (auto simp add: body_def unstarted_def unquoted_def Let_def
      split: ctl.splits sum.splits if_splits)

lemma loop_no_limit_last:
  "loop csv cd rd nc None pr n s = Some (Inr cs) \<Longrightarrow> cs \<noteq> [] \<and> last cs \<noteq> []"
proof (induction n arbitrary: s)
  case 0
  then show ?case by simp
next
  case (Suc n)
  show ?case
  proof (cases "pos s \<le> int (length csv) - 1")
    case True
    then obtain t where "loop csv cd rd nc None pr n t = Some (Inr cs)"
      using Suc.prems body_no_limit [of csv cd rd nc pr s]
      by (auto split: sum.splits ctl.splits)
    then show ?thesis by (rule Suc.IH)
  next
    case False
    then show ?thesis using Suc.prems by auto
  qed
qed

lemma last_concat_last: "cs \<noteq> [] \<Longrightarrow> last cs \<noteq> [] \<Longrightarrow> last (concat cs) = last (last cs)"
proof -
  assume a: "cs \<noteq> []" "last cs \<noteq> []"
  then have "concat cs = concat (butlast cs) @ last cs"
    by (metis append_butlast_last_id concat.simps concat_append append_Nil2)
  then show ?thesis using a(2) by simp
qed

lemma table_trailing:
  assumes "delimsOK c rd" "0 < nc" "tableOK nc c rd rs"
  shows "\<exists>cs. (\<exists>k. \<forall>n. loop (tableText c rd rs) [c] rd nc None False (k + n)
                  \<lparr>inCol = 0, pos = 0, rows = [], v = [], row = Array nc, colIdx = 0,
                   calls = []\<rparr> = Some (Inr cs))
            \<and> concat cs = map rowValues rs @ [Some [] # replicate (nc - 1) None]
            \<and> cs \<noteq> [] \<and> last cs \<noteq> []
            \<and> last (last cs) = Some [] # replicate (nc - 1) None"
proof -
  have "yields (\<lambda>n. loop (tableText c rd rs) [c] rd nc None False n
           \<lparr>inCol = 0, pos = 0, rows = [], v = [], row = Array nc, colIdx = 0, calls = []\<rparr>)
           (\<lambda>res. \<exists>cs. res = Inr cs \<and>
              concat cs = concat [] @ [] @ map rowValues rs @ [arr_set (Array nc) 0 []])"
    by (rule table_all [where pre = "[]" and tail = "[]"]) (use assms in auto)
  then obtain cs k where cs:
      "\<forall>n. loop (tableText c rd rs) [c] rd nc None False (k + n)
             \<lparr>inCol = 0, pos = 0, rows = [], v = [], row = Array nc, colIdx = 0, calls = []\<rparr>
           = Some (Inr cs)"
      "concat cs = map rowValues rs @ [Some [] # replicate (nc - 1) None]"
    unfolding yields_def by (auto simp add: fresh_row [OF assms(2)])
  have "loop (tableText c rd rs) [c] rd nc None False (k + 0)
             \<lparr>inCol = 0, pos = 0, rows = [], v = [], row = Array nc, colIdx = 0, calls = []\<rparr>
           = Some (Inr cs)"
    using cs(1) by blast
  then have l: "cs \<noteq> [] \<and> last cs \<noteq> []" by (rule loop_no_limit_last)
  then have "last (last cs) = last (concat cs)" by (simp add: last_concat_last)
  then have "last (last cs) = Some [] # replicate (nc - 1) None" by (simp add: cs(2))
  then show ?thesis using cs l by blast
qed

text \<open>On the text \<open>a<LF>\<close> with two columns declared the scan for the column delimiter fails,
  the position becomes \<open>-1\<close>, and every later pass through the loop body leaves the state as
  it is.\<close>

lemma body_stalled: "body shortRow comma LF 2 None False stalled = Inr (Next stalled)"
  by code_simp

lemma loop_stalled: "loop shortRow comma LF 2 None False n stalled = None"
  by (induction n) (simp_all add: body_stalled, simp add: stalled_def)

lemma loop_reach_stalled:
  "loop shortRow comma LF 2 None False (Suc n)
     \<lparr>inCol = 0, pos = 0, rows = [], v = [], row = Array 2, colIdx = 0, calls = []\<rparr>
   = loop shortRow comma LF 2 None False n stalled"
  by (simp add: body_def unstarted_def unquoted_def scanUnquoted_def charCodeAt_def
      code_eq_def indexOf_def slice_def comma_def LF_def quote_def Let_def stalled_def
      shortRow_def)

lemma loop_shortRow:
  "loop shortRow comma LF 2 None False fuel
     \<lparr>inCol = 0, pos = 0, rows = [], v = [], row = Array 2, colIdx = 0, calls = []\<rparr> = None"
proof (cases fuel)
  case 0
  then show ?thesis by simp
next
  case (Suc n)
  show ?thesis unfolding Suc loop_reach_stalled by (rule loop_stalled)
qed

lemma body_cjs_stalled:
  "body_cjs shortRow comma LF 2 C None False n stalled_cjs = Some (Inr (Next stalled_cjs))"
  by (simp add: body_cjs_def unstarted_cjs_def unquoted_cjs_def scanUnquoted_def
      charCodeAt_def code_eq_def indexOf_def slice_def comma_def LF_def Let_def
      stalled_cjs_def shortRow_def)

lemma loop_cjs_stalled: "loop_cjs shortRow comma LF 2 C None False n stalled_cjs = None"
  by (induction n) (simp_all add: body_cjs_stalled, simp add: stalled_cjs_def)

lemma loop_cjs_reach_stalled:
  "loop_cjs shortRow comma LF 2 C None False (Suc n)
     \<lparr>inCol = 0, pos = 0, rows = [], v = [], row = Array 2, colIdx = 0, calls = [],
      numChunks = 0\<rparr>
   = loop_cjs shortRow comma LF 2 C None False n stalled_cjs"
  by (simp add: body_cjs_def unstarted_cjs_def unquoted_cjs_def scanUnquoted_def
      charCodeAt_def code_eq_def indexOf_def slice_def comma_def LF_def quote_def Let_def
      stalled_cjs_def shortRow_def)

lemma loop_cjs_shortRow:
  "loop_cjs shortRow comma LF 2 C None False fuel
     \<lparr>inCol = 0, pos = 0, rows = [], v = [], row = Array 2, colIdx = 0, calls = [],
      numChunks = 0\<rparr> = None"
proof (cases fuel)
  case 0
  then show ?thesis by simp
next
  case (Suc n)
  show ?thesis unfolding Suc loop_cjs_reach_stalled by (rule loop_cjs_stalled)
qed

section \<open>The chunking invariant\<close>

text \<open>
  Claim C1. For every input text of \<open>R\<close> rows and every chunk size \<open>C\<close>, \<open>parse\<close> invokes the
  callback exactly \<open>ceil(R / C)\<close> times, with the chunk indices \<open>0, 1, 2, ...\<close>, and the chunks
  hold exactly the \<open>R\<close> rows in their order. The distributed build does not: on the scenario
  text, three rows each followed by the row delimiter, with quoting on and \<open>C = 3\<close>, it
  invokes the callback twice and hands over four rows; on the text \<open>a,b<LF>c,d\<close>, two rows,
  without quoting and with \<open>C = 1\<close>, it invokes the callback once, with one row. Each path
  does what the claim says where the other one fails: the quote-free path on a text of three
  rows each followed by the row delimiter (one invocation, three rows), the quoted path on
  \<open>a,b<LF>c,d\<close> (two invocations, two rows).
\<close>

theorem parse_cjs_chunk_count:
  "parse_cjs 100 scenario (csvSchema (Some quote) [''id'', ''name'', ''active'']) 3 None None
     = Some (Inr [([[Some ''id'', Some ''name'', Some ''active''],
                    [Some ''1'', Some ''Alice'', Some ''true''],
                    [Some ''2'', Some ''Bob, Jr.'', Some ''false'']], 0),
                  ([[Some [], None, None]], 1)])
   \<and> parse_cjs 100 (''a,b'' @ LF @ ''c,d'') (csvSchema None [''x'', ''y'']) 1 None None
     = Some (Inr [([[Some ''a'', Some ''b'']], 0)])
   \<and> parse_cjs 100 (''id,name,active'' @ LF @ ''1,Alice,true'' @ LF @ ''2,Bob,false'' @ LF)
         (csvSchema None [''id'', ''name'', ''active'']) 3 None None
     = Some (Inr [([[Some ''id'', Some ''name'', Some ''active''],
                    [Some ''1'', Some ''Alice'', Some ''true''],
                    [Some ''2'', Some ''Bob'', Some ''false'']], 0)])
   \<and> parse_cjs 100 (''a,b'' @ LF @ ''c,d'') (csvSchema (Some quote) [''x'', ''y'']) 1 None None
     = Some (Inr [([[Some ''a'', Some ''b'']], 0), ([[Some ''c'', Some ''d'']], 1)])"
  by code_simp

section \<open>The row after the last row delimiter\<close>

text \<open>The text \<open>a<LF>\<close> ends with the row delimiter and is parsed on the quoted path without
  any limit, two columns declared: neither build returns, whatever the fuel, and no row is
  handed to the callback.\<close>

theorem parse_trailing_row_counterexample:
  "shortRow = ''a'' @ rows_delim (csvSchema (Some quote) [''x'', ''y''])
   \<and> (\<forall>fuel. parse fuel shortRow (csvSchema (Some quote) [''x'', ''y'']) None None = None)
   \<and> (\<forall>fuel. parse_cjs fuel shortRow (csvSchema (Some quote) [''x'', ''y'']) 5000 None None
               = None)"
proof -
  have n: "length [''x'', ''y''] = 2" by simp
  have "parse fuel shortRow (csvSchema (Some quote) [''x'', ''y'']) None None = None" for fuel
    using loop_shortRow [of fuel]
    by (simp add: parse_def csvSchema_def quote_def n del: list.size)
  moreover have "parse_cjs fuel shortRow (csvSchema (Some quote) [''x'', ''y'']) 5000 None None
               = None" for fuel
    using loop_cjs_shortRow [of 5000 fuel]
    by (simp add: parse_cjs_def csvSchema_def quote_def n del: list.size)
  ultimately show ?thesis by (simp add: csvSchema_def shortRow_def)
qed

text \<open>
  Claim C10, amended. On the quoted path of either build, without row or chunk limit, the
  text of a well-formed table of \<open>nc\<close> columns in which every row is followed by the row
  delimiter gets one row more than it has: \<open>parse\<close> returns, the rows handed to the callback
  are the rows of the table followed by one further row, and this row, the last row of the
  last chunk, has the empty string in slot \<open>0\<close> and its other \<open>nc - 1\<close> slots unset. The
  distributed build takes the quoted path when \<open>schema.quote\<close> is not \<open>null\<close>, the source
  build when it is not the empty string either.
\<close>

theorem parse_trailing_row:
  assumes "delimsOK c rd" "0 < nc" "tableOK nc c rd rs"
    and "schema_quote sch \<noteq> None" "delimited sch c rd nc"
  shows "(\<exists>cs. (\<exists>k. \<forall>n. parse_cjs (k + n) (tableText c rd rs) sch C None None = Some (Inr cs))
              \<and> concat (map fst cs) = map rowValues rs @ [Some [] # replicate (nc - 1) None]
              \<and> cs \<noteq> [] \<and> fst (last cs) \<noteq> []
              \<and> last (fst (last cs)) = Some [] # replicate (nc - 1) None)
       \<and> (schema_quote sch \<noteq> Some [] \<longrightarrow>
            (\<exists>cs. (\<exists>k. \<forall>n. parse (k + n) (tableText c rd rs) sch None None = Some (Inr cs))
              \<and> concat cs = map rowValues rs @ [Some [] # replicate (nc - 1) None]
              \<and> cs \<noteq> [] \<and> last cs \<noteq> []
              \<and> last (last cs) = Some [] # replicate (nc - 1) None))"
proof (intro conjI impI)
  have "yields (\<lambda>n. loop_cjs (tableText c rd rs) [c] rd nc C None False n
           \<lparr>inCol = 0, pos = 0, rows = [], v = [], row = Array nc, colIdx = 0, calls = [],
            numChunks = 0\<rparr>)
           (\<lambda>res. \<exists>cs. res = Inr cs \<and>
              concat (map fst cs)
                = concat (map fst ([]::(row list \<times> nat) list)) @ [] @ map rowValues rs
                    @ [arr_set (Array nc) 0 []] \<and>
              cs \<noteq> [] \<and> fst (last cs) \<noteq> [] \<and>
              last (fst (last cs)) = arr_set (Array nc) 0 [])"
    by (rule table_cjs [where pre = "[]"]) (use assms in auto)
  then show "\<exists>cs. (\<exists>k. \<forall>n. parse_cjs (k + n) (tableText c rd rs) sch C None None = Some (Inr cs))
              \<and> concat (map fst cs) = map rowValues rs @ [Some [] # replicate (nc - 1) None]
              \<and> cs \<noteq> [] \<and> fst (last cs) \<noteq> []
              \<and> last (fst (last cs)) = Some [] # replicate (nc - 1) None"
    using yields_result [of "\<lambda>n. parse_cjs n (tableText c rd rs) sch C None None"
        "\<lambda>cs. concat (map fst cs) = map rowValues rs @ [Some [] # replicate (nc - 1) None]
              \<and> cs \<noteq> [] \<and> fst (last cs) \<noteq> []
              \<and> last (fst (last cs)) = Some [] # replicate (nc - 1) None"]
    by (simp add: parse_cjs_quoting [OF assms(4,5)] fresh_row [OF assms(2)])
next
  assume "schema_quote sch \<noteq> Some []"
  then have q: "quoting sch" using assms(4) by (simp add: quoting_def)
  show "\<exists>cs. (\<exists>k. \<forall>n. parse (k + n) (tableText c rd rs) sch None None = Some (Inr cs))
              \<and> concat cs = map rowValues rs @ [Some [] # replicate (nc - 1) None]
              \<and> cs \<noteq> [] \<and> last cs \<noteq> []
              \<and> last (last cs) = Some [] # replicate (nc - 1) None"
    using table_trailing [OF assms(1-3)] by (simp add: parse_quoting [OF q assms(5)])
qed

theorem parse_trailing_row_witness:
  "tableText (CHR '','') LF
     [[Plain ''id'', Plain ''name'', Plain ''active''],
      [Plain ''1'', Plain ''Alice'', Plain ''true''],
      [Plain ''2'', Quoted ''Bob, Jr.'', Plain ''false'']] = scenario
   \<and> (\<exists>cs. (\<exists>k. \<forall>n. parse_cjs (k + n) scenario
                 (csvSchema (Some quote) [''id'', ''name'', ''active'']) 5000 None None
                  = Some (Inr cs))
           \<and> concat (map fst cs)
               = [[Some ''id'', Some ''name'', Some ''active''],
                  [Some ''1'', Some ''Alice'', Some ''true''],
                  [Some ''2'', Some ''Bob, Jr.'', Some ''false''],
                  [Some [], None, None]]
           \<and> last (fst (last cs)) = [Some [], None, None])
   \<and> (\<exists>cs. (\<exists>k. \<forall>n. parse (k + n) scenario
                 (csvSchema (Some quote) [''id'', ''name'', ''active'']) None None
                  = Some (Inr cs))
           \<and> concat cs
               = [[Some ''id'', Some ''name'', Some ''active''],
                  [Some ''1'', Some ''Alice'', Some ''true''],
                  [Some ''2'', Some ''Bob, Jr.'', Some ''false''],
                  [Some [], None, None]]
           \<and> last (last cs) = [Some [], None, None])"
proof -
  let ?rs = "[[Plain ''id'', Plain ''name'', Plain ''active''],
      [Plain ''1'', Plain ''Alice'', Plain ''true''],
      [Plain ''2'', Quoted ''Bob, Jr.'', Plain ''false'']]"
  let ?sch = "csvSchema (Some quote) [''id'', ''name'', ''active'']"
  have t: "tableText (CHR '','') LF ?rs = scenario"
    by (simp add: tableText_def scenario_def quote_def)
  have d: "delimsOK (CHR '','') LF" by (simp add: delimsOK_def LF_def)
  have o: "tableOK 3 (CHR '','') LF ?rs" by (simp add: tableOK_def rowOK_def LF_def)
  have q: "schema_quote ?sch \<noteq> None" "delimited ?sch (CHR '','') LF 3"
    by (simp_all add: delimited_def csvSchema_def comma_def)
  have e: "schema_quote ?sch \<noteq> Some []" by (simp add: csvSchema_def quote_def)
  have p: "(0::nat) < 3" by simp
  note w = parse_trailing_row [OF d p o q, of 5000]
  have "\<exists>cs. (\<exists>k. \<forall>n. parse_cjs (k + n) scenario ?sch 5000 None None = Some (Inr cs))
           \<and> concat (map fst cs)
               = [[Some ''id'', Some ''name'', Some ''active''],
                  [Some ''1'', Some ''Alice'', Some ''true''],
                  [Some ''2'', Some ''Bob, Jr.'', Some ''false''],
                  [Some [], None, None]]
           \<and> last (fst (last cs)) = [Some [], None, None]"
    using w [THEN conjunct1] t by (simp add: rowValues_def numeral_3_eq_3) blast
  moreover have "\<exists>cs. (\<exists>k. \<forall>n. parse (k + n) scenario ?sch None None = Some (Inr cs))
           \<and> concat cs
               = [[Some ''id'', Some ''name'', Some ''active''],
                  [Some ''1'', Some ''Alice'', Some ''true''],
                  [Some ''2'', Some ''Bob, Jr.'', Some ''false''],
                  [Some [], None, None]]
           \<and> last (last cs) = [Some [], None, None]"
    using w [THEN conjunct2, rule_format, OF e] t
    by (simp add: rowValues_def numeral_3_eq_3) blast
  ultimately show ?thesis using t by blast
qed

section \<open>The concrete scenario\<close>

text \<open>
  Claim C2. On the scenario text, with the comma, the line feed and quoting on, \<open>parse\<close>
  yields after the header row exactly the rows \<open>1, Alice, true\<close> and \<open>2, "Bob, Jr.", false\<close>.
  The distributed build hands the callback four rows: the header, the two rows, and a
  further row whose first slot is the empty string and whose other slots are unset.
\<close>

theorem parse_cjs_scenario:
  "parse_cjs 100 scenario (csvSchema (Some quote) [''id'', ''name'', ''active'']) 5000 None None
     = Some (Inr [([[Some ''id'', Some ''name'', Some ''active''],
                    [Some ''1'', Some ''Alice'', Some ''true''],
                    [Some ''2'', Some ''Bob, Jr.'', Some ''false''],
                    [Some [], None, None]], 0)])"
  by code_simp

section \<open>A first line without a column delimiter\<close>

text \<open>The two lines of \<open>undelimited\<close> hold no candidate delimiter, and \<open>schema\<close> returns a
  schema for them, the column delimiter \<open>undefined\<close>; with a quote in the second line it throws
  a \<open>TypeError\<close>.\<close>

theorem schema_without_delimiter_counterexample:
  "fst (firstRowMatch undelimited) = ''abc''
   \<and> filter (\<lambda>d. sublist d ''abc'') COL_DELIMS = []
   \<and> schema 50 undelimited 10
       = Some (Inr \<lparr>schema_quote = Some [], cols_delim = None, cols_names = [''0''],
                    cols_types = [Some ''s''], rows_delim = LF\<rparr>)
   \<and> schema 50 (''abc'' @ LF @ quote @ ''d'' @ quote @ LF) 10 = Some (Inl TypeError)"
  by code_simp

text \<open>
  Claim C3, amended. When the first line holds none of the candidate column delimiters, the
  sniffed column delimiter is \<open>undefined\<close>. If the text holds a quote, \<open>schema\<close> then throws a
  \<open>TypeError\<close>, from \<open>colDelim.charCodeAt(0)\<close> in \<open>parse\<close>; if it holds none, \<open>schema\<close> returns a
  schema without a column delimiter and with the single column \<open>0\<close>, provided that the text has
  a line terminator after its first line or that the row limit is from \<open>1\<close> to \<open>CHUNK_SIZE\<close>.
\<close>

theorem schema_without_delimiter:
  assumes "\<forall>d \<in> set COL_DELIMS. \<not> sublist d (fst (firstRowMatch csvStr))"
    and "snd (firstRowMatch csvStr) \<noteq> [] \<or> (1 \<le> limit \<and> limit \<le> int CHUNK_SIZE)"
  shows "cols_delim (sniffed csvStr) = None \<and>
         (if sublist quote csvStr
          then \<forall>fuel. schema fuel csvStr limit = Some (Inl TypeError)
          else \<exists>sch. (\<exists>k. \<forall>n. schema (k + n) csvStr limit = Some (Inr sch))
                 \<and> schema_quote sch = Some [] \<and> cols_delim sch = None
                 \<and> cols_names sch = [''0''] \<and> rows_delim sch = snd (firstRowMatch csvStr))"
proof (cases "sublist quote csvStr")
  case True
  have cd: "cols_delim (sniffed csvStr) = None" by (rule sniffed_undelimited [OF assms(1)])
  have q: "schema_quote (sniffed csvStr) = Some quote"
    using True by (simp add: sniffed_def Let_def indexOf_sublist)
  have "parse fuel csvStr (sniffed csvStr) lm mc = Some (Inl TypeError)" for fuel lm mc
    by (simp add: parse_def Let_def cd q quote_def)
  then show ?thesis using True cd by (simp add: schema_def firstRows_def Let_def)
next
  case False
  have cd: "cols_delim (sniffed csvStr) = None" by (rule sniffed_undelimited [OF assms(1)])
  have q: "schema_quote (sniffed csvStr) = Some []"
    using False by (simp add: sniffed_def Let_def indexOf_sublist)
  have rd: "rows_delim (sniffed csvStr) = snd (firstRowMatch csvStr)"
    by (simp add: sniffed_def Let_def)
  obtain res k where res: "concat res \<noteq> []"
      "\<forall>n. fastLoop csvStr None (snd (firstRowMatch csvStr)) (Some limit) (k + n) 0 [] []
             = Some res"
    using firstLoop_returns [OF assms(2), where cd = None] by blast
  have "fastLoop csvStr None (snd (firstRowMatch csvStr)) (Some limit) (k + 0) 0 [] [] = Some res"
    using res(2) by blast
  then have single: "\<forall>r \<in> set (concat res). \<exists>x. r = [Some x]"
    by (rule fastLoop_undelimited) simp_all
  obtain first sample where fs: "concat res = first # sample"
    using res(1) by (cases "concat res") auto
  then obtain x where x: "first = [Some x]" using single by auto
  have p: "parse (k + n) csvStr (sniffed csvStr) (Some limit) mc = Some (Inr res)" for n mc
    using res(2) by (simp add: parse_def Let_def cd q rd)
  define sch where "sch = (sniffed csvStr)
      \<lparr>cols_names := [''0''],
       cols_types := fold probeRow sample (replicate (length [''0'']) (Some ''s''))\<rparr>"
  have "schema (k + n) csvStr limit = Some (Inr sch)" for n
    by (simp add: schema_def firstRows_def Let_def p fs x keys_of_single sch_def
        del: list.size)
  moreover have "schema_quote sch = Some []" "cols_delim sch = None" "cols_names sch = [''0'']"
    "rows_delim sch = snd (firstRowMatch csvStr)"
    by (simp_all add: sch_def q cd rd)
  ultimately show ?thesis using False cd by auto
qed

theorem schema_without_delimiter_witness:
  "cols_delim (sniffed undelimited) = None \<and>
   (\<exists>sch. (\<exists>k. \<forall>n. schema (k + n) undelimited 10 = Some (Inr sch))
          \<and> schema_quote sch = Some [] \<and> cols_delim sch = None
          \<and> cols_names sch = [''0''] \<and> rows_delim sch = LF)"
proof -
  have a: "\<forall>d \<in> set COL_DELIMS. \<not> sublist d (fst (firstRowMatch undelimited))"
    by code_simp
  have b: "snd (firstRowMatch undelimited) \<noteq> [] \<or> (1 \<le> (10::int) \<and> 10 \<le> int CHUNK_SIZE)"
    by (simp add: CHUNK_SIZE_def)
  have c: "\<not> sublist quote undelimited" by code_simp
  have d: "snd (firstRowMatch undelimited) = LF" by code_simp
  show ?thesis
    using schema_without_delimiter [OF a b] c d by simp
qed

section \<open>The inferred column types\<close>

text \<open>In the text \<open>mixed\<close> the first column holds \<open>1\<close> and \<open>y\<close>, the second \<open>x\<close> and \<open>2\<close>: neither
  column has only numeric values, \<open>+'y'\<close> and \<open>+'x'\<close> being \<open>NaN\<close>, and both are typed \<open>n\<close>.\<close>

theorem schema_types_counterexample:
  "firstRows 50 mixed 10
     = Some (Inr [[Some ''a'', Some ''b''], [Some ''1'', Some ''x''], [Some ''y'', Some ''2'']])
   \<and> map_option (map_sum id cols_types) (schema 50 mixed 10) = Some (Inr [Some ''n'', Some ''n''])
   \<and> plusIsNaN ''y'' \<and> plusIsNaN ''x''"
  by code_simp

text \<open>
  Claim C4, amended. When \<open>schema\<close> returns, the names are the keys of the first sampled row
  and the type of column \<open>i\<close> is \<open>n\<close> if and only if at least one of the rows sampled after it
  has, at index \<open>i\<close>, a value whose unary plus is not \<open>NaN\<close>; otherwise it is \<open>s\<close>.
\<close>

theorem schema_types:
  assumes "schema fuel csvStr limit = Some (Inr sch)"
  shows "\<exists>first sample.
           firstRows fuel csvStr limit = Some (Inr (first # sample))
         \<and> cols_names sch = keys_of first
         \<and> (\<forall>i < length (cols_names sch).
               cols_types sch ! i
                 = (if list_ex (\<lambda>r. numericAt r i) sample then Some ''n'' else Some ''s''))"
proof -
  from assms obtain first sample where fr: "firstRows fuel csvStr limit = Some (Inr (first # sample))"
    by (auto simp add: schema_def split: option.splits sum.splits list.splits)
  have sch: "sch = (sniffed csvStr)
                \<lparr>cols_names := keys_of first,
                 cols_types := fold probeRow sample
                                 (replicate (length (keys_of first)) (Some ''s''))\<rparr>"
    using assms fr by (simp add: schema_def Let_def)
  have "cols_types sch ! i
          = (if list_ex (\<lambda>r. numericAt r i) sample then Some ''n'' else Some ''s'')"
    if "i < length (cols_names sch)" for i
    using that fold_probeRow_nth [of i "replicate (length (keys_of first)) (Some ''s'')" sample]
    by (simp add: sch)
  then show ?thesis using fr sch by auto
qed

theorem schema_types_witness:
  "schema 50 mixed 10
     = Some (Inr \<lparr>schema_quote = Some [], cols_delim = Some comma, cols_names = [''0'', ''1''],
                  cols_types = [Some ''n'', Some ''n''], rows_delim = LF\<rparr>)
   \<and> (\<exists>first sample.
           firstRows 50 mixed 10 = Some (Inr (first # sample))
         \<and> cols_names \<lparr>schema_quote = Some [], cols_delim = Some comma,
                        cols_names = [''0'', ''1''], cols_types = [Some ''n'', Some ''n''],
                        rows_delim = LF\<rparr> = keys_of first
         \<and> (\<forall>i < length (cols_names \<lparr>schema_quote = Some [], cols_delim = Some comma,
                        cols_names = [''0'', ''1''], cols_types = [Some ''n'', Some ''n''],
                        rows_delim = LF\<rparr>).
               cols_types \<lparr>schema_quote = Some [], cols_delim = Some comma,
                        cols_names = [''0'', ''1''], cols_types = [Some ''n'', Some ''n''],
                        rows_delim = LF\<rparr> ! i
                 = (if list_ex (\<lambda>r. numericAt r i) sample then Some ''n'' else Some ''s'')))"
proof -
  have e: "schema 50 mixed 10
     = Some (Inr \<lparr>schema_quote = Some [], cols_delim = Some comma, cols_names = [''0'', ''1''],
                  cols_types = [Some ''n'', Some ''n''], rows_delim = LF\<rparr>)"
    by code_simp
  show ?thesis
    by (rule conjI [OF e schema_types [OF e]])
qed

section \<open>Parsing and joining again\<close>

text \<open>On the quote-free path the text \<open>a,b<LF>\<close> gives the one row \<open>a, b\<close>; joined again it
  is \<open>a,b\<close>, without the row delimiter of the text.\<close>

theorem parse_rejoin_counterexample:
  "parse 20 (''a,b'' @ LF) (csvSchema (Some []) [''x'', ''y'']) None None
     = Some (Inr [[[Some ''a'', Some ''b'']]])
   \<and> rejoin (CHR '','') LF (concat [[[Some ''a'', Some ''b'']]]) \<noteq> ''a,b'' @ LF"
  by code_simp

text \<open>
  Claim C5, amended. For a table of plain fields: on the quote-free path, the text in which
  every row is followed by the row delimiter is parsed into rows that, joined again and
  followed by one row delimiter, give the text; on the quoted path, with every row of the
  declared width, the text whose last row has no row delimiter after it is parsed into rows
  that, joined again, give the text exactly.
\<close>

theorem parse_rejoin:
  assumes "delimsOK c rd" "delimited sch c rd nc" "plainTable c rd rs"
  shows "(\<not> quoting sch \<and> rs \<noteq> [] \<longrightarrow>
            (\<exists>cs. (\<exists>k. \<forall>n. parse (k + n) (tableText c rd rs) sch None None = Some (Inr cs))
                  \<and> rejoin c rd (concat cs) @ rd = tableText c rd rs))
       \<and> (quoting sch \<and> 0 < nc \<and> tableOK nc c rd (rs @ [rl]) \<and> plainRow c rd rl \<longrightarrow>
            (\<exists>cs. (\<exists>k. \<forall>n. parse (k + n) (tableText c rd rs @ rowText c rl) sch None None
                              = Some (Inr cs))
                  \<and> rejoin c rd (concat cs) = tableText c rd rs @ rowText c rl))"
proof (intro conjI impI)
  assume a: "\<not> quoting sch \<and> rs \<noteq> []"
  have rd: "find_sub rd [] = None" using assms(1) by (simp add: delimsOK_def)
  have "yields (\<lambda>n. fastLoop (tableText c rd rs) (Some [c]) rd None n 0 [] [])
           (\<lambda>cs. concat cs = concat [] @ [] @ map rowValues rs)"
    by (rule fast_table_all [where pre = "[]" and tail = "[]"]) (use assms rd in auto)
  then obtain cs where cs: "\<exists>k. \<forall>n. map_option Inr
        (fastLoop (tableText c rd rs) (Some [c]) rd None (k + n) 0 [] []) = Some (Inr cs)"
      "concat cs = map rowValues rs"
    using yields_Inr by fastforce
  have "rejoin c rd (concat cs) @ rd = tableText c rd rs"
    using a by (simp add: cs(2) rejoin_rows [OF assms(3)] join_terminated)
  then show "\<exists>cs. (\<exists>k. \<forall>n. parse (k + n) (tableText c rd rs) sch None None = Some (Inr cs))
                  \<and> rejoin c rd (concat cs) @ rd = tableText c rd rs"
    using cs(1) a parse_fast [OF _ assms(2)] by auto
next
  assume a: "quoting sch \<and> 0 < nc \<and> tableOK nc c rd (rs @ [rl]) \<and> plainRow c rd rl"
  then have ok: "tableOK nc c rd rs" "rowOK nc c rd rl" by (simp_all add: tableOK_def)
  obtain cs where cs: "\<exists>k. \<forall>n. parse (k + n) (tableText c rd rs @ rowText c rl) sch None None
                        = Some (Inr cs)" "concat cs = map rowValues (rs @ [rl])"
    using parse_unescapes_quotes_aux [OF assms(1) _ ok _ assms(2)] a by blast
  have pt: "plainTable c rd (rs @ [rl])" using assms(3) a by (simp add: plainTable_def)
  have "rejoin c rd (concat cs) = tableText c rd rs @ rowText c rl"
    by (simp only: cs(2) rejoin_rows [OF pt] join_unterminated)
  then show "\<exists>cs. (\<exists>k. \<forall>n. parse (k + n) (tableText c rd rs @ rowText c rl) sch None None
                              = Some (Inr cs))
                  \<and> rejoin c rd (concat cs) = tableText c rd rs @ rowText c rl"
    using cs(1) by blast
qed

theorem parse_rejoin_witness:
  "(\<exists>cs. (\<exists>k. \<forall>n. parse (k + n) (tableText (CHR '','') LF [[Plain ''a'', Plain ''b'']])
                       (csvSchema (Some []) [''x'', ''y'']) None None = Some (Inr cs))
          \<and> rejoin (CHR '','') LF (concat cs) @ LF = ''a,b'' @ LF)
   \<and> (\<exists>cs. (\<exists>k. \<forall>n. parse (k + n)
                       (tableText (CHR '','') LF [[Plain ''a'', Plain ''b'']]
                          @ rowText (CHR '','') [Plain ''c'', Plain ''d''])
                       (csvSchema (Some quote) [''x'', ''y'']) None None = Some (Inr cs))
          \<and> rejoin (CHR '','') LF (concat cs) = ''a,b'' @ LF @ ''c,d'')"
proof -
  have d: "delimsOK (CHR '','') LF" by (simp add: delimsOK_def LF_def)
  have t: "plainTable (CHR '','') LF [[Plain ''a'', Plain ''b'']]"
    by (simp add: plainTable_def plainRow_def LF_def)
  have r: "plainRow (CHR '','') LF [Plain ''c'', Plain ''d'']"
    by (simp add: plainRow_def LF_def)
  have o: "tableOK 2 (CHR '','') LF ([[Plain ''a'', Plain ''b'']] @ [[Plain ''c'', Plain ''d'']])"
    by (simp add: tableOK_def rowOK_def LF_def)
  have f: "\<not> quoting (csvSchema (Some []) [''x'', ''y''])"
    "delimited (csvSchema (Some []) [''x'', ''y'']) (CHR '','') LF 2"
    by (simp_all add: quoting_def delimited_def csvSchema_def comma_def)
  have q: "quoting (csvSchema (Some quote) [''x'', ''y''])"
    "delimited (csvSchema (Some quote) [''x'', ''y'']) (CHR '','') LF 2"
    by (simp_all add: quoting_def delimited_def csvSchema_def comma_def quote_def)
  show ?thesis
    using parse_rejoin [OF d f(2) t, of "[]"]
      parse_rejoin [OF d q(2) t, of "[Plain ''c'', Plain ''d'']"] f(1) q(1) r o
    by (simp add: tableText_def)
qed

section \<open>The row limit\<close>

text \<open>
  Claim C6. For every input and every row limit \<open>k\<close>, \<open>parse\<close> with the row limit \<open>k\<close>
  produces exactly \<open>k\<close> rows, however many rows the input has beyond them, and returns
  without scanning the rest. The source build does not for a limit above \<open>CHUNK_SIZE\<close>: with
  the row limit \<open>5001\<close> on a text of \<open>5002\<close> rows it returns all \<open>5002\<close> rows. The limit is
  compared with the length of the chunk buffer, which is emptied at \<open>CHUNK_SIZE\<close> rows and
  so never holds \<open>5001\<close>. A limit within the chunk size is met: with the row limit \<open>1\<close> on
  the text \<open>a<LF>b<LF>\<close> the row \<open>a\<close> alone is returned.
\<close>

theorem parse_row_limit_beyond_chunk:
  "(\<exists>cs. (\<exists>k. \<forall>n. parse (k + n) (tableText (CHR '','') LF (replicate 5002 [Plain ''a'']))
                        (csvSchema (Some []) [''x'']) (Some 5001) None = Some (Inr cs))
           \<and> concat cs = replicate 5002 [Some ''a''])
   \<and> parse 20 (''a'' @ LF @ ''b'' @ LF) (csvSchema (Some []) [''x'']) (Some 1) None
       = Some (Inr [[[Some ''a'']]])"
proof
  let ?csv = "tableText (CHR '','') LF (replicate 5002 [Plain ''a''])"
  have f: "\<not> quoting (csvSchema (Some []) [''x''])"
    "delimited (csvSchema (Some []) [''x'']) (CHR '','') LF 1"
    by (simp_all add: quoting_def delimited_def csvSchema_def comma_def)
  have d: "delimsOK (CHR '','') LF" by (simp add: delimsOK_def LF_def)
  have t: "plainTable (CHR '','') LF (replicate 5002 [Plain ''a''])"
    by (simp add: plainTable_def plainRow_def LF_def list_all_iff)
  have e: "find_sub LF [] = None" by (simp add: LF_def)
  have "yields (\<lambda>n. fastLoop ?csv (Some [CHR '','']) LF None n 0 [] [])
           (\<lambda>cs. concat cs = concat [] @ [] @ map rowValues (replicate 5002 [Plain ''a'']))"
    by (rule fast_table_all [where pre = "[]" and tail = "[]"]) (use d t e in auto)
  then obtain cs where cs: "\<exists>k. \<forall>n. map_option Inr
        (fastLoop ?csv (Some [CHR '','']) LF None (k + n) 0 [] []) = Some (Inr cs)"
      "concat cs = map rowValues (replicate 5002 [Plain ''a''])"
    using yields_Inr by fastforce
  have "fastLoop ?csv (Some [CHR '','']) LF (Some 5001) m 0 [] []
          = fastLoop ?csv (Some [CHR '','']) LF None m 0 [] []" for m
    by (rule fast_limit_beyond_chunk) (simp_all add: CHUNK_SIZE_def)
  then have "\<exists>k. \<forall>n. parse (k + n) ?csv (csvSchema (Some []) [''x'']) (Some 5001) None
                        = Some (Inr cs)"
    using cs(1) by (simp add: parse_fast [OF f])
  moreover have "concat cs = replicate 5002 [Some ''a'']"
    by (simp add: cs(2) rowValues_def)
  ultimately show "\<exists>cs. (\<exists>k. \<forall>n. parse (k + n) ?csv (csvSchema (Some []) [''x'']) (Some 5001) None
                        = Some (Inr cs)) \<and> concat cs = replicate 5002 [Some ''a'']"
    by blast
next
  show "parse 20 (''a'' @ LF @ ''b'' @ LF) (csvSchema (Some []) [''x'']) (Some 1) None
       = Some (Inr [[[Some ''a'']]])"
    by code_simp
qed

section \<open>The unterminated quote\<close>

lemma body_stuck: "body (quote @ ''abc'') comma LF 2 None False stuck = Inr (Next stuck)"
  by code_simp

lemma loop_stuck: "loop (quote @ ''abc'') comma LF 2 None False n stuck = None"
  by (induction n) (simp_all add: body_stuck, simp add: stuck_def)

lemmas eval_defs =
  body_def unstarted_def quoted_def unquoted_def scanUnquoted_def pushMacro_def
  charCodeAt_def code_eq_def indexOf_def slice_def quote_def comma_def LF_def Let_def
  Array_def

lemma reach_stuck:
  "loop (quote @ ''abc'') comma LF 2 None False (Suc (Suc (Suc (Suc n))))
     \<lparr>inCol = 0, pos = 0, rows = [], v = [], row = Array 2, colIdx = 0, calls = []\<rparr>
   = loop (quote @ ''abc'') comma LF 2 None False n stuck"
  by (simp add: eval_defs stuck_def)

lemma loop_unterminated:
  "loop (quote @ ''abc'') comma LF 2 None False fuel
     \<lparr>inCol = 0, pos = 0, rows = [], v = [], row = Array 2, colIdx = 0, calls = []\<rparr> = None"
proof (cases "fuel < 4")
  case True
  then consider "fuel = 0" | "fuel = Suc 0" | "fuel = Suc (Suc 0)" | "fuel = Suc (Suc (Suc 0))"
    by arith
  then show ?thesis
    by cases (simp_all add: eval_defs)
next
  case False
  then have "fuel = Suc (Suc (Suc (Suc (fuel - 4))))" by arith
  then show ?thesis
    using reach_stuck [of "fuel - 4"] loop_stuck [of "fuel - 4"] by simp
qed

text \<open>The inner loop of the distributed build, on the same text: after the failed search
  for the closing quote the position is \<open>-1\<close> and \<open>c\<close> is taken to be a quote; the character
  at position \<open>0\<close> is the opening quote, so the pair is read as an escaped quote and the scan
  starts again at position \<open>1\<close>.\<close>

lemma quoted_cjs_diverges:
  "(pos s = 1 \<longrightarrow> quoted_cjs (quote @ ''abc'') n (Some CHR ''a'') s = None) \<and>
   (pos s = - 1 \<longrightarrow> quoted_cjs (quote @ ''abc'') n (Some CHR 0x22) s = None)"
proof (induction n arbitrary: s)
  case 0
  show ?case by simp
next
  case (Suc n)
  show ?case
    using Suc [of "s\<lparr>v := v s @ ''ab'', pos := - 1\<rparr>"] Suc [of "s\<lparr>v := v s @ quote, pos := 1\<rparr>"]
    by (auto simp add: charCodeAt_def code_eq_def indexOf_def slice_def quote_def Let_def)
qed

lemma parse_cjs_unterminated:
  "parse_cjs fuel (quote @ ''abc'') (csvSchema (Some quote) [''x'', ''y'']) chunkSize None None
     = None"
proof (cases fuel)
  case 0
  then show ?thesis by (simp add: parse_cjs_def csvSchema_def quote_def)
next
  case (Suc n)
  have "quoted_cjs (quote @ ''abc'') n (Some CHR ''a'') s = None" if "pos s = 1" for s
    using quoted_cjs_diverges [of s n] that by simp
  then show ?thesis using Suc
    by (simp add: parse_cjs_def csvSchema_def body_cjs_def unstarted_cjs_def charCodeAt_def
        code_eq_def quote_def Let_def)
qed

text \<open>
  Claim C7. An input that ends inside a quoted field makes \<open>parse\<close> terminate with the
  field closed at the end of the input. On the text \<open>"abc\<close>, with quoting on and two columns
  declared, neither build terminates: whatever the fuel, the run is out of fuel.
\<close>

theorem parse_unterminated_quote_diverges:
  "parse fuel (quote @ ''abc'') (csvSchema (Some quote) [''x'', ''y'']) None None = None
   \<and> parse_cjs fuel (quote @ ''abc'') (csvSchema (Some quote) [''x'', ''y'']) chunkSize None None
       = None"
proof -
  have "length [''x'', ''y''] = 2" by simp
  then have "parse fuel (quote @ ''abc'') (csvSchema (Some quote) [''x'', ''y'']) None None = None"
    using loop_unterminated [of fuel]
    by (simp add: parse_def csvSchema_def quote_def comma_def LF_def del: list.size)
  then show ?thesis
    using parse_cjs_unterminated by simp
qed

section \<open>The final row without a row terminator\<close>

text \<open>
  Claim C8. An input whose final row is not followed by a row terminator still has that row
  emitted, on the quoted path and on the quote-free path. The quote-free path does not do
  it: on the text \<open>a,b<LF>c,d\<close> it emits the row \<open>a,b\<close> only, where the quoted path emits
  both rows.
\<close>

theorem parse_fast_path_drops_final_row:
  "parse 20 (''a,b'' @ LF @ ''c,d'') (csvSchema (Some []) [''x'', ''y'']) None None
     = Some (Inr [[[Some ''a'', Some ''b'']]])
   \<and> parse 20 (''a,b'' @ LF @ ''c,d'') (csvSchema (Some quote) [''x'', ''y'']) None None
     = Some (Inr [[[Some ''a'', Some ''b''], [Some ''c'', Some ''d'']]])"
  by code_simp

section \<open>Doubled quotes in a quoted field\<close>

text \<open>
  Claim C9. A quoted field in which every quote character is written twice is emitted with
  each pair turned into one quote character. For every table of \<open>nc\<close> columns whose fields
  are plain or quoted (\<open>fieldText (Quoted w)\<close> is \<open>w\<close> between quotes with every quote of \<open>w\<close>
  doubled, whatever \<open>w\<close> holds), \<open>parse\<close> on the text of the table, its last row without a
  row delimiter, returns, and the rows it hands to the callback are the values of the
  fields: \<open>w\<close> for the field \<open>Quoted w\<close>.
\<close>

theorem parse_unescapes_doubled_quotes:
  assumes "delimsOK c rd" "0 < nc" "tableOK nc c rd rs" "rowOK nc c rd rl"
    and "quoting sch" "delimited sch c rd nc"
  shows "\<exists>cs. (\<exists>k. \<forall>n. parse (k + n) (tableText c rd rs @ rowText c rl) sch None None
                        = Some (Inr cs))
              \<and> concat cs = map rowValues (rs @ [rl])"
  using assms by (rule parse_unescapes_quotes_aux)

text \<open>The field written \<open>"He said ""hi"""\<close> is emitted as \<open>He said "hi"\<close>.\<close>

theorem parse_unescapes_doubled_quotes_witness:
  "fieldText (Quoted (''He said '' @ quote @ ''hi'' @ quote))
     = quote @ ''He said '' @ quote @ quote @ ''hi'' @ quote @ quote @ quote
   \<and> (\<exists>cs. (\<exists>k. \<forall>n. parse (k + n)
                (tableText (CHR '','') LF []
                   @ rowText (CHR '','') [Quoted (''He said '' @ quote @ ''hi'' @ quote)])
                (csvSchema (Some quote) [''x'']) None None = Some (Inr cs))
          \<and> concat cs = map rowValues ([] @ [[Quoted (''He said '' @ quote @ ''hi'' @ quote)]]))"
proof -
  have "delimsOK (CHR '','') LF" by (simp add: delimsOK_def LF_def)
  moreover have "tableOK 1 (CHR '','') LF []" by (simp add: tableOK_def)
  moreover have "rowOK 1 (CHR '','') LF [Quoted (''He said '' @ quote @ ''hi'' @ quote)]"
    by (simp add: rowOK_def)
  moreover have "quoting (csvSchema (Some quote) [''x''])"
    by (simp add: quoting_def csvSchema_def quote_def)
  moreover have "delimited (csvSchema (Some quote) [''x'']) (CHR '','') LF 1"
    by (simp add: delimited_def csvSchema_def comma_def)
  ultimately show ?thesis
    using parse_unescapes_doubled_quotes [of "CHR '',''" LF 1 "[]"
        "[Quoted (''He said '' @ quote @ ''hi'' @ quote)]" "csvSchema (Some quote) [''x'']"]
    by (simp add: quote_def)
qed

end
